(* ===== verification/Prelude.thy ===== *)
theory Prelude
  imports Main "HOL-Library.Multiset" "HOL-Library.Sublist"
begin

text \<open>
  Shared vocabulary of the development of \<open>src/psiphon/conn.go\<close>: the names of the
  model's types, the Go map of the registry (\<open>map[net.Conn]bool\<close>, which may be
  \<open>nil\<close>), the iteration orders Go's \<open>for ... range\<close> may choose over such a map, and
  generic lemmas on maps, folds and counts that the component theories share.
\<close>

section \<open>Collections of facts\<close>

named_theorems gomap_simps \<open>evaluation of Go map operations on nil and allocated maps\<close>
named_theorems conn_simps \<open>equations of the closeable-connection operations\<close>

section \<open>Types of the model\<close>

text \<open>Goroutines are numbered; channels are addressed by a handle.\<close>

type_synonym tid = nat
type_synonym chan_id = nat

text \<open>
  A Go map value \<open>map[K]V\<close>: \<open>None\<close> is the \<open>nil\<close> map (the zero value of the field),
  \<open>Some m\<close> an allocated map. Reading and deleting work on both; writing needs an
  allocated one.
\<close>

type_synonym ('k, 'v) gomap = "('k \<rightharpoonup> 'v) option"

section \<open>Go map primitives\<close>

text \<open>
  The keys of a Go map: a \<open>nil\<close> map has none. Go maps are finite, so a
  \<open>range\<close> loop over them can enumerate them.
\<close>

definition gomap_keys :: "('k, 'v) gomap \<Rightarrow> 'k set" where
  "gomap_keys g = (case g of None \<Rightarrow> {} | Some m \<Rightarrow> dom m)"

text \<open>\<open>delete(m, k)\<close>: a no-op on a \<open>nil\<close> map and on an absent key.\<close>

definition gomap_delete :: "('k, 'v) gomap \<Rightarrow> 'k \<Rightarrow> ('k, 'v) gomap" where
  "gomap_delete g k = map_option (\<lambda>m. m(k := None)) g"

text \<open>
  \<open>for k := range m\<close> visits every key of \<open>m\<close> exactly once, in an order the runtime
  chooses (and randomises); an order is any duplicate-free list of exactly the keys.
  The loops of the model take the order as an argument and the theorems hold for every
  admissible one.
\<close>

definition range_order :: "('k, 'v) gomap \<Rightarrow> 'k list \<Rightarrow> bool" where
  "range_order g xs \<longleftrightarrow> distinct xs \<and> set xs = gomap_keys g"

section \<open>Generic lemmas\<close>

lemma gomap_keys_None [simp, gomap_simps]: "gomap_keys None = {}"
  and gomap_keys_Some [simp, gomap_simps]: "gomap_keys (Some m) = dom m"
  by (simp_all add: gomap_keys_def)

lemma gomap_delete_None [simp, gomap_simps]: "gomap_delete None k = None"
  and gomap_delete_Some [simp, gomap_simps]: "gomap_delete (Some m) k = Some (m(k := None))"
  by (simp_all add: gomap_delete_def)

lemma gomap_keys_delete [simp]: "gomap_keys (gomap_delete g k) = gomap_keys g - {k}"
  by (cases g) auto

lemma range_order_None [simp]: "range_order None xs \<longleftrightarrow> xs = []"
  by (auto simp: range_order_def)

lemma range_order_empty [simp]: "range_order (Some Map.empty) xs \<longleftrightarrow> xs = []"
  by (auto simp: range_order_def)

lemma range_order_exists: "finite (gomap_keys g) \<Longrightarrow> \<exists>xs. range_order g xs"
  using finite_distinct_list by (auto simp: range_order_def)

lemma range_order_count:
  "range_order g xs \<Longrightarrow> count_list xs c = (if c \<in> gomap_keys g then 1 else 0)"
  by (auto simp: range_order_def count_list_0_iff distinct_count_atmost_1 count_mset [symmetric])

text \<open>A function that changes one point of a store, folded over distinct points.\<close>

lemma fold_log: "fold (\<lambda>c l. l @ [c]) xs l = l @ xs"
  by (induction xs arbitrary: l) auto

text \<open>Sums over a list of per-element costs, when one element is replaced.\<close>

lemma sum_list_map_update:
  fixes f :: "'a \<Rightarrow> 'b::comm_monoid_add"
  shows "i < length xs \<Longrightarrow> sum_list (map f (xs[i := x])) + f (xs ! i) = sum_list (map f xs) + f x"
proof (induction xs arbitrary: i)
  case Nil
  then show ?case by simp
next
  case (Cons y ys)
  then show ?case by (cases i) (simp_all add: ac_simps)
qed

lemma sum_list_map_update_less:
  fixes f :: "'a \<Rightarrow> nat"
  shows "i < length xs \<Longrightarrow> f x < f (xs ! i) \<Longrightarrow> sum_list (map f (xs[i := x])) < sum_list (map f xs)"
  using sum_list_map_update [of i xs f x] by simp

lemma sum_list_map_update_eq:
  fixes f :: "'a \<Rightarrow> nat"
  shows "i < length xs \<Longrightarrow> f x = f (xs ! i) \<Longrightarrow> sum_list (map f (xs[i := x])) = sum_list (map f xs)"
  using sum_list_map_update [of i xs f x] by simp

text \<open>
  A trace whose first steps follow a fixed plan \<open>ys @ zs\<close> and that reaches a step
  \<open>a\<close> lying beyond \<open>ys\<close> has taken every step of \<open>ys\<close>.
\<close>

lemma prefix_take_covers:
  assumes pre: "prefix (take (length ys + k) xs) (ys @ zs)" and a: "a \<in> set xs" and na: "a \<notin> set ys"
  shows "set ys \<subseteq> set xs"
proof (cases "length ys \<le> length xs")
  case True
  from pre obtain r where r: "ys @ zs = take (length ys + k) xs @ r" by (auto elim: prefixE)
  have "ys = take (length ys) (ys @ zs)" by simp
  also have "\<dots> = take (length ys) (take (length ys + k) xs)" using True by (simp add: r)
  also have "\<dots> = take (length ys) xs" by (simp add: min_def)
  finally have "set ys = set (take (length ys) xs)" by simp
  then show ?thesis using set_take_subset by metis
next
  case False
  then have "take (length ys + k) xs = xs" by simp
  with pre have "prefix xs (ys @ zs)" by simp
  with False have "prefix xs ys" by (auto simp: prefix_append dest: prefix_length_le)
  with a na show ?thesis using set_mono_prefix by blast
qed

end
