(* ===== verification/Channel.thy ===== *)
theory Channel
  imports Prelude
begin

text \<open>
  The close signal of \<open>Conn.SetClosedSignal\<close> (\<open>src/psiphon/conn.go\<close>, lines 37--42)
  is a Go channel \<open>chan struct{}\<close>. This theory models such a channel as far as the
  signal needs it: its capacity, the values waiting in its buffer, the goroutines blocked
  in a receive, and the number of values receivers have taken. The closer sends with a
  non-blocking \<open>select { case ch <- struct{}{}: default: }\<close>, modelled by
  \<open>chan_trysend\<close>; a receive \<open><-ch\<close> by \<open>chan_recv\<close>. A value of type
  \<open>struct{}\<close> carries no data, so the buffer is a count.
\<close>

record chan =
  chan_cap :: nat
  chan_buf :: nat
  chan_recvq :: nat
  chan_received :: nat

text \<open>\<open>make(chan struct{}, n)\<close>: an empty channel of capacity \<open>n\<close> (\<open>0\<close> is unbuffered).\<close>

definition chan_make :: "nat \<Rightarrow> chan" where
  "chan_make n = \<lparr>chan_cap = n, chan_buf = 0, chan_recvq = 0, chan_received = 0\<rparr>"

text \<open>
  Non-blocking send. A goroutine blocked in a receive takes the value directly;
  otherwise the value is buffered if there is room; otherwise the \<open>default\<close> branch
  runs and the value is dropped. The flag says whether the send took place.
\<close>

definition chan_trysend :: "chan \<Rightarrow> chan \<times> bool" where
  "chan_trysend ch =
     (if 0 < chan_recvq ch
      then (ch\<lparr>chan_recvq := chan_recvq ch - 1, chan_received := Suc (chan_received ch)\<rparr>, True)
      else if chan_buf ch < chan_cap ch
      then (ch\<lparr>chan_buf := Suc (chan_buf ch)\<rparr>, True)
      else (ch, False))"

text \<open>
  A goroutine executing \<open><-ch\<close>: it takes a buffered value if there is one, and
  otherwise blocks until a sender hands it one. The flag says whether it returned.
\<close>

definition chan_recv :: "chan \<Rightarrow> chan \<times> bool" where
  "chan_recv ch =
     (if 0 < chan_buf ch
      then (ch\<lparr>chan_buf := chan_buf ch - 1, chan_received := Suc (chan_received ch)\<rparr>, True)
      else (ch\<lparr>chan_recvq := Suc (chan_recvq ch)\<rparr>, False))"

text \<open>
  The number of values sent on the channel so far: those still buffered and those
  already received. A receive moves a value from the first count to the second.
\<close>

definition chan_signals :: "chan \<Rightarrow> nat" where
  "chan_signals ch = chan_buf ch + chan_received ch"

text \<open>Whether a non-blocking send would go through now.\<close>

definition chan_ready :: "chan \<Rightarrow> bool" where
  "chan_ready ch \<longleftrightarrow> 0 < chan_recvq ch \<or> chan_buf ch < chan_cap ch"

section \<open>Lemmas\<close>

lemma chan_trysend_signals:
  "chan_signals (fst (chan_trysend ch)) = chan_signals ch + (if chan_ready ch then 1 else 0)"
  by (auto simp: chan_trysend_def chan_ready_def chan_signals_def)

lemma chan_trysend_cap [simp]: "chan_cap (fst (chan_trysend ch)) = chan_cap ch"
  by (simp add: chan_trysend_def)

lemma chan_recv_signals: "chan_signals (fst (chan_recv ch)) = chan_signals ch"
  by (auto simp: chan_recv_def chan_signals_def)

lemma chan_make_signals [simp]: "chan_signals (chan_make n) = 0"
  by (simp add: chan_make_def chan_signals_def)

lemma chan_make_ready [simp]: "chan_ready (chan_make n) \<longleftrightarrow> 0 < n"
  by (simp add: chan_make_def chan_ready_def)

end
