(* ===== verification/Conn.thy ===== *)
theory Conn
  imports Channel
begin

text \<open>
  The closeable-connection capability: the interface \<open>Conn\<close> of
  \<open>src/psiphon/conn.go\<close> (lines 30--43) is a \<open>net.Conn\<close> with the extra method
  \<open>SetClosedSignal(closedSignal chan struct{}) error\<close>. Its implementations
  (\<open>DirectConn\<close>, \<open>MeekConn\<close>) are not in \<open>src/\<close>; their behaviour is modelled from
  the contract of the interface comment and the specification (section 4.1): a
  connection is open until its first \<open>Close\<close>, which marks it closed and signals the
  registered channel with a non-blocking send; later \<open>Close\<close> calls do nothing;
  \<open>SetClosedSignal\<close> on a closed connection fails with an already-closed error and
  changes nothing. The connection's own mutex makes each call atomic, so concurrent
  callers are a sequence of calls in the order they took that mutex; goroutines
  receiving on the channels interleave with them.
\<close>

type_synonym chans = "chan_id \<Rightarrow> chan"

section \<open>The interface and its implementation\<close>

text \<open>The calls of the interface that change state (the I/O of \<open>net.Conn\<close> does not).\<close>

datatype conn_method = Close | SetClosedSignal "chan_id option"

datatype conn_error = AlreadyClosedError

text \<open>
  The state an implementation keeps: whether it is closed and the registered channel
  (\<open>None\<close> is the \<open>nil\<close> channel of a fresh connection).
\<close>

record conn_state =
  isClosed :: bool
  closedSignal :: "chan_id option"

definition conn_new :: conn_state where
  "conn_new = \<lparr>isClosed = False, closedSignal = None\<rparr>"

text \<open>
  \<open>SetClosedSignal\<close>: under the connection's mutex, fail if closed, else store the
  channel (a later call replaces an earlier one).
\<close>

definition conn_SetClosedSignal :: "chan_id option \<Rightarrow> conn_state \<Rightarrow> conn_error + conn_state" where
  "conn_SetClosedSignal sig c =
     (if isClosed c then Inl AlreadyClosedError else Inr (c\<lparr>closedSignal := sig\<rparr>))"

text \<open>
  \<open>Close\<close>: under the connection's mutex, on the first call only, mark the connection
  closed and send on the registered channel without blocking; a send on the \<open>nil\<close>
  channel never proceeds, so \<open>select\<close> takes its \<open>default\<close> branch.
\<close>

definition conn_signal :: "chan_id option \<Rightarrow> chans \<Rightarrow> chans" where
  "conn_signal sig chs =
     (case sig of None \<Rightarrow> chs | Some k \<Rightarrow> chs(k := fst (chan_trysend (chs k))))"

definition conn_Close :: "conn_state \<Rightarrow> chans \<Rightarrow> conn_state \<times> chans" where
  "conn_Close c chs =
     (if isClosed c then (c, chs)
      else (c\<lparr>isClosed := True\<rparr>, conn_signal (closedSignal c) chs))"

text \<open>One call on the interface, with its error result.\<close>

fun conn_call :: "conn_method \<Rightarrow> conn_state \<times> chans \<Rightarrow> conn_error option \<times> (conn_state \<times> chans)" where
  "conn_call Close (c, chs) = (None, conn_Close c chs)"
| "conn_call (SetClosedSignal sig) (c, chs) =
     (case conn_SetClosedSignal sig c of
        Inl e \<Rightarrow> (Some e, (c, chs))
      | Inr c' \<Rightarrow> (None, (c', chs)))"

text \<open>
  What happens to one connection and the channels over time: calls on the connection,
  interleaved with receives by other goroutines.
\<close>

datatype conn_event = Call conn_method | Recv chan_id

fun conn_step :: "conn_event \<Rightarrow> conn_state \<times> chans \<Rightarrow> conn_state \<times> chans" where
  "conn_step (Call k) s = snd (conn_call k s)"
| "conn_step (Recv ch) (c, chs) = (c, chs(ch := fst (chan_recv (chs ch))))"

fun conn_run :: "conn_event list \<Rightarrow> conn_state \<times> chans \<Rightarrow> conn_state \<times> chans" where
  "conn_run [] s = s"
| "conn_run (e # es) s = conn_run es (conn_step e s)"

section \<open>Lemmas\<close>

lemma conn_signal_None [simp, conn_simps]: "conn_signal None chs = chs"
  by (simp add: conn_signal_def)

lemma conn_Close_closed [simp, conn_simps]: "isClosed c \<Longrightarrow> conn_Close c chs = (c, chs)"
  by (simp add: conn_Close_def)

lemma conn_Close_open [conn_simps]:
  "\<not> isClosed c \<Longrightarrow> conn_Close c chs = (c\<lparr>isClosed := True\<rparr>, conn_signal (closedSignal c) chs)"
  by (simp add: conn_Close_def)

lemma conn_Close_isClosed [simp]: "isClosed (fst (conn_Close c chs))"
  by (simp add: conn_Close_def)

lemma conn_SetClosedSignal_closed [simp, conn_simps]:
  "isClosed c \<Longrightarrow> conn_SetClosedSignal sig c = Inl AlreadyClosedError"
  by (simp add: conn_SetClosedSignal_def)

lemma conn_SetClosedSignal_open [simp, conn_simps]:
  "\<not> isClosed c \<Longrightarrow> conn_SetClosedSignal sig c = Inr (c\<lparr>closedSignal := sig\<rparr>)"
  by (simp add: conn_SetClosedSignal_def)

text \<open>A closed connection stays closed and leaves the channels alone, call after call.\<close>

lemma conn_call_closed:
  "isClosed c \<Longrightarrow> snd (conn_call k (c, chs)) = (c, chs)"
  by (cases k) simp_all

lemma conn_step_closed_isClosed:
  "isClosed c \<Longrightarrow> isClosed (fst (conn_step e (c, chs)))"
  by (cases e) (simp_all add: conn_call_closed)

text \<open>Signals counted per channel: receives move values but never create them.\<close>

lemma conn_step_closed_signals:
  "isClosed c \<Longrightarrow> chan_signals (snd (conn_step e (c, chs)) k) = chan_signals (chs k)"
  by (cases e) (auto simp: conn_call_closed chan_recv_signals)

lemma conn_run_closed_signals:
  "isClosed (fst s) \<Longrightarrow> chan_signals (snd (conn_run es s) k) = chan_signals (snd s k)"
proof (induction es arbitrary: s)
  case Nil
  then show ?case by simp
next
  case (Cons e es)
  obtain c chs where s: "s = (c, chs)" by fastforce
  with Cons.prems have "isClosed (fst (conn_step e (c, chs)))"
    by (simp add: conn_step_closed_isClosed)
  with Cons.IH [of "conn_step e (c, chs)"] s Cons.prems show ?case
    by (simp add: conn_step_closed_signals)
qed

lemma conn_signal_signals:
  "chan_signals (conn_signal sig chs k) =
     chan_signals (chs k) + (if sig = Some k \<and> chan_ready (chs k) then 1 else 0)"
  by (cases sig) (auto simp: conn_signal_def chan_trysend_signals)

text \<open>On an open connection, every event but \<open>Close\<close> keeps it open and sends nothing.\<close>

lemma conn_step_open_other:
  assumes "\<not> isClosed c" and "e \<noteq> Call Close"
  shows "\<not> isClosed (fst (conn_step e (c, chs)))
    \<and> chan_signals (snd (conn_step e (c, chs)) j) = chan_signals (chs j)"
proof (cases e)
  case (Call m)
  with assms show ?thesis by (cases m) auto
next
  case (Recv k)
  then show ?thesis using assms by (auto simp: chan_recv_signals)
qed

section \<open>Properties of the capability\<close>

text \<open>
  C11. \<open>SetClosedSignal\<close> called after \<open>Close\<close> fails with the already-closed error
  and has no effect: the connection and every channel are as \<open>Close\<close> left them.
\<close>

theorem SetClosedSignal_after_Close:
  "conn_call (SetClosedSignal sig) (conn_Close c chs) = (Some AlreadyClosedError, conn_Close c chs)"
proof -
  obtain c' chs' where cl: "conn_Close c chs = (c', chs')" by fastforce
  then have "isClosed c'" using conn_Close_isClosed [of c chs] by simp
  with cl show ?thesis by simp
qed

text \<open>
  C12. \<open>SetClosedSignal\<close> on an open connection followed by \<open>Close\<close> signals the
  channel exactly once, whatever calls and receives follow, provided the non-blocking
  send can proceed (a receiver is waiting or the buffer has room).
\<close>

theorem signal_exactly_once:
  assumes "\<not> isClosed c" and "chan_ready (chs k)"
  shows "chan_signals (snd (conn_run (Call (SetClosedSignal (Some k)) # Call Close # es) (c, chs)) k)
    = Suc (chan_signals (chs k))"
proof -
  let ?c1 = "c\<lparr>closedSignal := Some k\<rparr>"
  have set: "conn_step (Call (SetClosedSignal (Some k))) (c, chs) = (?c1, chs)"
    using assms(1) by simp
  have close: "conn_step (Call Close) (?c1, chs) = (?c1\<lparr>isClosed := True\<rparr>, conn_signal (Some k) chs)"
    using assms(1) by (simp add: conn_Close_open)
  have "chan_signals (snd (conn_run es (?c1\<lparr>isClosed := True\<rparr>, conn_signal (Some k) chs)) k)
      = chan_signals (conn_signal (Some k) chs k)"
    by (rule conn_run_closed_signals [of "(_, _)", simplified]) simp
  with set close assms(2) show ?thesis by (simp add: conn_signal_signals)
qed

theorem signal_exactly_once_witness:
  "\<not> isClosed conn_new \<and> chan_ready ((\<lambda>_. chan_make 1) (0::nat))
   \<and> chan_signals (snd (conn_run (Call (SetClosedSignal (Some 0)) # Call Close # [Call Close]) (conn_new, \<lambda>_. chan_make 1)) 0)
     = Suc (chan_signals ((\<lambda>_. chan_make 1) (0::nat)))"
proof -
  have h1: "\<not> isClosed conn_new" by (simp add: conn_new_def)
  have h2: "chan_ready ((\<lambda>_. chan_make 1) (0::nat))" by simp
  show ?thesis by (rule conjI [OF h1 conjI [OF h2 signal_exactly_once [where c = conn_new and chs = "\<lambda>_. chan_make 1" and k = 0 and es = "[Call Close]", OF h1 h2]]])
qed

text \<open>
  C13. At most one signal, whatever the interleaving: over any sequence of calls and
  receives, the signal counts of all channels but one are unchanged and that one grows
  by at most one; a connection that starts closed signals nothing.
\<close>

theorem signal_at_most_once:
  "\<exists>k n. n \<le> (if isClosed (fst s) then 0 else 1) \<and>
     (\<forall>j. chan_signals (snd (conn_run es s) j) = chan_signals (snd s j) + (if j = k then n else 0))"
proof (induction es arbitrary: s)
  case Nil
  show ?case by (rule exI [of _ 0], rule exI [of _ 0]) simp
next
  case (Cons e es)
  obtain c chs where s: "s = (c, chs)" by fastforce
  show ?case
  proof (cases "isClosed c")
    case True
    have "\<forall>j. chan_signals (snd (conn_run (e # es) s) j) = chan_signals (snd s j)"
    proof
      fix j
      show "chan_signals (snd (conn_run (e # es) s) j) = chan_signals (snd s j)"
        by (rule conn_run_closed_signals) (simp add: s True)
    qed
    with True s show ?thesis by auto
  next
    case opn: False
    show ?thesis
    proof (cases "e = Call Close")
      case True
      let ?sig = "closedSignal c"
      have run: "conn_run (e # es) s = conn_run es (c\<lparr>isClosed := True\<rparr>, conn_signal ?sig chs)"
        using True opn s by (simp add: conn_Close_open)
      have "\<forall>j. chan_signals (snd (conn_run (e # es) s) j) = chan_signals (conn_signal ?sig chs j)"
        unfolding run by (metis conn_run_closed_signals fst_conv snd_conv ext_inject
            conn_state.select_convs(1) conn_state.surjective conn_state.update_convs(1))
      then have "\<forall>j. chan_signals (snd (conn_run (e # es) s) j) = chan_signals (snd s j)
          + (if j = (case ?sig of None \<Rightarrow> 0 | Some k \<Rightarrow> k)
             then (if ?sig \<noteq> None \<and> chan_ready (chs (the ?sig)) then 1 else 0) else 0)"
        using s by (auto simp: conn_signal_signals split: option.splits)
      with opn s show ?thesis by fastforce
    next
      case False
      from conn_step_open_other [OF opn False]
      have step: "\<not> isClosed (fst (conn_step e (c, chs)))"
        "\<forall>j. chan_signals (snd (conn_step e (c, chs)) j) = chan_signals (chs j)" by auto
      from Cons.IH [of "conn_step e (c, chs)"] obtain k n where
        "n \<le> 1" "\<forall>j. chan_signals (snd (conn_run es (conn_step e (c, chs))) j)
           = chan_signals (snd (conn_step e (c, chs)) j) + (if j = k then n else 0)"
        using step(1) by auto
      with step(2) s opn show ?thesis by auto
    qed
  qed
qed



text \<open>
  C15. Only the last registered channel is signalled: after \<open>SetClosedSignal\<close> with a
  channel \<open>k\<close> and then with another channel, \<open>Close\<close> and whatever follows never
  signal \<open>k\<close>.
\<close>

theorem replaced_signal_never_fires:
  assumes "\<not> isClosed c" and "k' \<noteq> k"
  shows "chan_signals (snd (conn_run (Call (SetClosedSignal (Some k)) # Call (SetClosedSignal (Some k'))
      # Call Close # es) (c, chs)) k) = chan_signals (chs k)"
proof -
  let ?c2 = "c\<lparr>closedSignal := Some k'\<rparr>"
  have run: "conn_run (Call (SetClosedSignal (Some k)) # Call (SetClosedSignal (Some k')) # Call Close # es) (c, chs)
      = conn_run es (?c2\<lparr>isClosed := True\<rparr>, conn_signal (Some k') chs)"
    using assms(1) by (simp add: conn_Close_open)
  have "chan_signals (snd (conn_run es (?c2\<lparr>isClosed := True\<rparr>, conn_signal (Some k') chs)) k)
      = chan_signals (conn_signal (Some k') chs k)"
    by (rule conn_run_closed_signals [of "(_, _)", simplified]) simp
  with run assms(2) show ?thesis by (simp add: conn_signal_signals)
qed

theorem replaced_signal_never_fires_witness:
  "\<not> isClosed conn_new \<and> (1::nat) \<noteq> 0
   \<and> chan_signals (snd (conn_run (Call (SetClosedSignal (Some 0)) # Call (SetClosedSignal (Some 1))
      # Call Close # []) (conn_new, \<lambda>_. chan_make 1)) 0) = chan_signals ((\<lambda>_. chan_make 1) (0::nat))"
proof -
  have h1: "\<not> isClosed conn_new" by (simp add: conn_new_def)
  have h2: "(1::nat) \<noteq> 0" by simp
  show ?thesis by (rule conjI [OF h1 conjI [OF h2 replaced_signal_never_fires [where c = conn_new and chs = "\<lambda>_. chan_make 1" and k = 0 and es = "[]", OF h1 h2]]])
qed

end
