(* ===== verification/Conns.thy ===== *)
theory Conns
  imports Prelude
begin

text \<open>
  The connection registry \<open>Conns\<close> of \<open>src/psiphon/conn.go\<close> (lines 45--75): a mutex
  and a Go map \<open>map[net.Conn]bool\<close> whose zero value is \<open>nil\<close>. Each method takes the
  mutex and releases it by \<open>defer\<close>; this theory models what each method does while
  it holds the mutex, one call at a time (theory \<open>Conns_Concurrent\<close> interleaves them).
  Connections are handles of a type variable \<open>'c\<close>: Go compares interface values by
  identity, and the model needs nothing but equality. \<open>CloseAll\<close> calls the
  \<open>Close\<close> method of each member through the \<open>net.Conn\<close> interface; the model takes
  that method as a parameter \<open>close\<close> acting on a world of type \<open>'w\<close> and returning
  Go's \<open>error\<close> as an option, so every lemma here holds for every implementation.
\<close>

section \<open>State and operations\<close>

record 'c Conns =
  mutex :: "tid option"
  conns :: "('c, bool) gomap"

text \<open>The zero value \<open>Conns{}\<close>: an unlocked mutex and a \<open>nil\<close> map.\<close>

definition Conns_zero :: "'c Conns" where
  "Conns_zero = \<lparr>mutex = None, conns = None\<rparr>"

text \<open>The \<open>Close\<close> method of \<open>net.Conn\<close>, as the registry sees it.\<close>

type_synonym ('c, 'w, 'e) close_method = "'c \<Rightarrow> 'w \<Rightarrow> 'e option \<times> 'w"

text \<open>
  \<open>Add\<close>: allocate the map if it is \<open>nil\<close>, then set \<open>conns.conns[conn] = true\<close>.
\<close>

definition Conns_Add :: "'c \<Rightarrow> 'c Conns \<Rightarrow> 'c Conns" where
  "Conns_Add conn s =
     (let s1 = (if conns s = None then s\<lparr>conns := Some Map.empty\<rparr> else s)
      in s1\<lparr>conns := map_option (\<lambda>m. m(conn \<mapsto> True)) (conns s1)\<rparr>)"

text \<open>\<open>Remove\<close>: \<open>delete(conns.conns, conn)\<close>, a no-op on \<open>nil\<close> and on absent keys.\<close>

definition Conns_Remove :: "'c \<Rightarrow> 'c Conns \<Rightarrow> 'c Conns" where
  "Conns_Remove conn s = s\<lparr>conns := gomap_delete (conns s) conn\<rparr>"

text \<open>
  The loop of \<open>CloseAll\<close>: \<open>conn.Close()\<close> on each key in the order the runtime
  chose, the error discarded.
\<close>

fun closeAll_loop :: "('c, 'w, 'e) close_method \<Rightarrow> 'c list \<Rightarrow> 'w \<Rightarrow> 'w" where
  "closeAll_loop close [] w = w"
| "closeAll_loop close (conn # cs) w = closeAll_loop close cs (snd (close conn w))"

text \<open>
  \<open>CloseAll\<close>: close every key (in the iteration order \<open>order\<close>, which must be an
  admissible \<open>range\<close> order of the map), then replace the map by a fresh empty one.
\<close>

definition Conns_CloseAll ::
  "('c, 'w, 'e) close_method \<Rightarrow> 'c list \<Rightarrow> 'c Conns \<times> 'w \<Rightarrow> 'c Conns \<times> 'w" where
  "Conns_CloseAll close order sw =
     (case sw of (s, w) \<Rightarrow>
        (let w' = closeAll_loop close order w in (s\<lparr>conns := Some Map.empty\<rparr>, w')))"

text \<open>A call on the registry, with the iteration order \<open>CloseAll\<close> gets from the runtime.\<close>

datatype 'c conns_op = OpAdd 'c | OpRemove 'c | OpCloseAll "'c list"

fun Conns_op :: "('c, 'w, 'e) close_method \<Rightarrow> 'c conns_op \<Rightarrow> 'c Conns \<times> 'w \<Rightarrow> 'c Conns \<times> 'w" where
  "Conns_op close (OpAdd c) (s, w) = (Conns_Add c s, w)"
| "Conns_op close (OpRemove c) (s, w) = (Conns_Remove c s, w)"
| "Conns_op close (OpCloseAll order) sw = Conns_CloseAll close order sw"

fun Conns_run :: "('c, 'w, 'e) close_method \<Rightarrow> 'c conns_op list \<Rightarrow> 'c Conns \<times> 'w \<Rightarrow> 'c Conns \<times> 'w" where
  "Conns_run close [] sw = sw"
| "Conns_run close (op # ops) sw = Conns_run close ops (Conns_op close op sw)"

text \<open>
  A \<open>Close\<close> that only records its receiver: instantiating \<open>close\<close> with it makes
  the sequence of \<open>Close\<close> calls of a registry operation observable.
\<close>

definition log_close :: "('c, 'c list, unit) close_method" where
  "log_close c l = (None, l @ [c])"

section \<open>Abstraction and invariant\<close>

text \<open>
  The registry promises a finite set of connections (specification, section 3): the
  abstraction is the key set of the map. The abstract operations are insertion,
  removal and emptying.
\<close>

definition members :: "'c Conns \<Rightarrow> 'c set" where
  "members s = gomap_keys (conns s)"

fun set_op :: "'c conns_op \<Rightarrow> 'c set \<Rightarrow> 'c set" where
  "set_op (OpAdd c) A = insert c A"
| "set_op (OpRemove c) A = A - {c}"
| "set_op (OpCloseAll _) A = {}"

text \<open>
  Well-formedness of the registry: finitely many keys, every value \<open>true\<close>
  (the code never stores \<open>false\<close>).
\<close>

definition Conns_wf :: "'c Conns \<Rightarrow> bool" where
  "Conns_wf s \<longleftrightarrow> finite (members s) \<and> (case conns s of None \<Rightarrow> True | Some m \<Rightarrow> ran m \<subseteq> {True})"

section \<open>Lemmas\<close>

lemma closeAll_loop_fold: "closeAll_loop close cs w = fold (\<lambda>c w. snd (close c w)) cs w"
  by (induction cs arbitrary: w) simp_all

lemma Conns_Add_conns [simp]:
  "conns (Conns_Add c s) = Some ((case conns s of None \<Rightarrow> Map.empty | Some m \<Rightarrow> m)(c \<mapsto> True))"
  by (cases "conns s") (simp_all add: Conns_Add_def)

lemma Conns_Add_mutex [simp]: "mutex (Conns_Add c s) = mutex s"
  by (simp add: Conns_Add_def Let_def)

lemma Conns_Remove_conns [simp]: "conns (Conns_Remove c s) = gomap_delete (conns s) c"
  and Conns_Remove_mutex [simp]: "mutex (Conns_Remove c s) = mutex s"
  by (simp_all add: Conns_Remove_def)

lemma Conns_CloseAll_eq [simp]:
  "Conns_CloseAll close order (s, w) = (s\<lparr>conns := Some Map.empty\<rparr>, fold (\<lambda>c w. snd (close c w)) order w)"
  by (simp add: Conns_CloseAll_def closeAll_loop_fold)

text \<open>The bodies do not touch the mutex, so locking commutes with them.\<close>

lemma Conns_Add_mutex_update: "Conns_Add c (s\<lparr>mutex := x\<rparr>) = (Conns_Add c s)\<lparr>mutex := x\<rparr>"
  by (simp add: Conns_Add_def Let_def)

lemma Conns_Remove_mutex_update: "Conns_Remove c (s\<lparr>mutex := x\<rparr>) = (Conns_Remove c s)\<lparr>mutex := x\<rparr>"
  by (simp add: Conns_Remove_def)

lemma members_Add [simp]: "members (Conns_Add c s) = insert c (members s)"
  by (cases "conns s") (auto simp: members_def)

lemma members_Remove [simp]: "members (Conns_Remove c s) = members s - {c}"
  by (simp add: members_def)

lemma members_zero [simp]: "members Conns_zero = {}"
  by (simp add: members_def Conns_zero_def)

lemma members_conns_update [simp]: "members (s\<lparr>conns := g\<rparr>) = gomap_keys g"
  by (simp add: members_def)

lemma members_mutex_update [simp]: "members (s\<lparr>mutex := x\<rparr>) = members s"
  by (simp add: members_def)

lemma members_op: "members (fst (Conns_op close op sw)) = set_op op (members (fst sw))"
  by (cases sw; cases op) simp_all

lemma Conns_op_mutex: "mutex (fst (Conns_op close op sw)) = mutex (fst sw)"
  by (cases sw; cases op) simp_all

lemma Conns_Add_wf: "Conns_wf s \<Longrightarrow> Conns_wf (Conns_Add c s)"
  by (cases "conns s") (auto simp: Conns_wf_def members_def ran_def)

lemma Conns_Remove_wf: "Conns_wf s \<Longrightarrow> Conns_wf (Conns_Remove c s)"
  by (cases "conns s") (auto simp: Conns_wf_def members_def ran_def)

lemma Conns_wf_emptied [simp]: "Conns_wf (s\<lparr>conns := Some Map.empty\<rparr>)"
  by (simp add: Conns_wf_def)

section \<open>Properties of the registry\<close>

text \<open>
  C4. Refinement: whatever sequence of \<open>Add\<close>, \<open>Remove\<close> and \<open>CloseAll\<close> calls
  runs, in whatever iteration orders, the registry's membership is what the abstract set
  operations (insert, remove, empty) compute from the initial membership.
\<close>

theorem Conns_run_refines_set:
  "members (fst (Conns_run close ops sw)) = fold set_op ops (members (fst sw))"
proof (induction ops arbitrary: sw)
  case Nil
  then show ?case by simp
next
  case (Cons op ops)
  then show ?case by (simp add: members_op)
qed

text \<open>
  C5. \<open>Remove\<close> of a connection that is not a member is a no-op: the registry is
  unchanged, also when its map is still \<open>nil\<close>.
\<close>

theorem Conns_Remove_absent: "c \<notin> members s \<Longrightarrow> Conns_Remove c s = s"
  by (cases "conns s") (auto simp: Conns_Remove_def members_def fun_upd_idem)

theorem Conns_Remove_absent_witness:
  "(1::nat) \<notin> members (Conns_Add 2 Conns_zero)
   \<and> Conns_Remove (1::nat) (Conns_Add 2 Conns_zero) = Conns_Add 2 Conns_zero"
  using Conns_Remove_absent [of "1::nat" "Conns_Add (2::nat) Conns_zero"] by simp

text \<open>
  C1. \<open>CloseAll\<close> empties the registry and calls \<open>Close\<close> on every connection that
  was a member exactly once and on no other connection, whatever iteration order the
  runtime chooses: with a \<open>Close\<close> that logs its receiver, the log grows by each member
  exactly once.
\<close>

theorem CloseAll_closes_each_member_once:
  assumes "range_order (conns s) order"
  shows "members (fst (Conns_CloseAll log_close order (s, log))) = {}
    \<and> count_list (snd (Conns_CloseAll log_close order (s, log))) c
        = count_list log c + (if c \<in> members s then 1 else 0)"
  using range_order_count [OF assms, of c] by (simp add: log_close_def fold_log members_def)

theorem CloseAll_closes_each_member_once_witness:
  "range_order (conns (Conns_Add 1 (Conns_Add (2::nat) Conns_zero))) [2, 1]
   \<and> members (fst (Conns_CloseAll log_close [2, 1] (Conns_Add 1 (Conns_Add (2::nat) Conns_zero), []))) = {}
   \<and> count_list (snd (Conns_CloseAll log_close [2, 1] (Conns_Add 1 (Conns_Add (2::nat) Conns_zero), []))) 1
       = count_list [] (1::nat) + (if (1::nat) \<in> members (Conns_Add 1 (Conns_Add (2::nat) Conns_zero)) then 1 else 0)"
proof -
  have ord: "range_order (conns (Conns_Add 1 (Conns_Add (2::nat) Conns_zero))) [2, 1]"
    by (auto simp: range_order_def Conns_zero_def)
  show ?thesis by (rule conjI [OF ord CloseAll_closes_each_member_once [OF ord, of "[]" 1]])
qed

text \<open>
  C19. Round trip: removing a connection that was just added, and was not a member
  before, gives back the registry it was added to; the one difference is that
  \<open>Add\<close> has allocated the map if it was \<open>nil\<close>, so the zero value comes back as an
  allocated empty map.
\<close>

theorem Remove_after_Add:
  assumes "c \<notin> members s"
  shows "Conns_Remove c (Conns_Add c s) = (if conns s = None then s\<lparr>conns := Some Map.empty\<rparr> else s)"
proof (cases "conns s")
  case None
  then show ?thesis by (simp add: Conns_Remove_def Conns_Add_def)
next
  case (Some m)
  with assms have "m c = None" by (auto simp: members_def)
  then have "(m(c \<mapsto> True))(c := None) = m" by (simp add: fun_upd_idem_iff)
  with Some show ?thesis by (simp add: Conns_Remove_def Conns_Add_def)
qed

theorem Remove_after_Add_witness:
  "(1::nat) \<notin> members Conns_zero
   \<and> Conns_Remove 1 (Conns_Add (1::nat) Conns_zero)
       = (if conns (Conns_zero :: nat Conns) = None then Conns_zero\<lparr>conns := Some Map.empty\<rparr> else Conns_zero)"
proof -
  have h: "(1::nat) \<notin> members Conns_zero" by simp
  show ?thesis by (rule conjI [OF h Remove_after_Add [OF h]])
qed

end
