(* ===== verification/Conns_Concurrent.thy ===== *)
theory Conns_Concurrent
  imports Conns
begin

text \<open>
  Goroutines calling the registry concurrently (\<open>src/psiphon/conn.go\<close>, lines
  53--75). Each goroutine has a list of registry calls to make, one after the other.
  A call is a sequence of atomic steps: \<open>conns.mutex.Lock()\<close>; the body (one step for
  \<open>Add\<close> and \<open>Remove\<close>; for \<open>CloseAll\<close> one step per \<open>conn.Close()\<close> of the
  \<open>range\<close> loop, then the step that installs the fresh map); and the deferred
  \<open>Unlock()\<close>. Any goroutine may take the next step; \<open>Lock\<close> only proceeds on an
  unlocked mutex. Goroutines outside the registry act on the connections too (they read,
  close and receive on their own); those are environment steps on the world, given by
  a relation \<open>env\<close>. Steps carry labels, so that a run has a trace: the label
  \<open>LLin\<close> marks the step at which a call takes effect on the registry's membership.
\<close>

section \<open>State\<close>

datatype 'c call = CAdd 'c | CRemove 'c | CCloseAll

text \<open>
  Where a goroutine is in its current call: not in a call (\<open>Idle\<close>), holding the
  mutex before the body of \<open>Add\<close> or \<open>Remove\<close>, in the \<open>range\<close> loop of
  \<open>CloseAll\<close> with the keys still to visit, or at the deferred \<open>Unlock\<close>.
\<close>

datatype 'c pc = Idle | InAdd 'c | InRemove 'c | InCloseAll "'c list" | Unlocking

record 'c thread =
  tpc :: "'c pc"
  tcalls :: "'c call list"

record ('c, 'w) sys =
  sreg :: "'c Conns"
  sworld :: 'w
  sthreads :: "'c thread list"

datatype 'c label = LLock tid | LLin tid "'c call" | LClose tid 'c | LUnlock tid | LEnv

text \<open>The body a call starts with once it holds the mutex.\<close>

fun call_start :: "'c call \<Rightarrow> 'c list \<Rightarrow> 'c pc" where
  "call_start (CAdd c) ord = InAdd c"
| "call_start (CRemove c) ord = InRemove c"
| "call_start CCloseAll ord = InCloseAll ord"

definition put_pc :: "tid \<Rightarrow> 'c pc \<Rightarrow> ('c, 'w) sys \<Rightarrow> ('c, 'w) sys" where
  "put_pc t p s = s\<lparr>sthreads := (sthreads s)[t := (sthreads s ! t)\<lparr>tpc := p\<rparr>]\<rparr>"

section \<open>Steps\<close>

text \<open>
  One step of goroutine \<open>t\<close>, chosen by the scheduler, with the iteration order
  \<open>ord\<close> the runtime picks if the step starts \<open>CloseAll\<close>'s loop. \<open>None\<close>: the
  goroutine cannot move (it has no call left, or \<open>Lock\<close> finds the mutex held, or the
  order is not an admissible one for the map).
\<close>

definition lock_step :: "tid \<Rightarrow> 'c list \<Rightarrow> ('c, 'w) sys \<Rightarrow> ('c label \<times> ('c, 'w) sys) option" where
  "lock_step t ord s =
     (case tcalls (sthreads s ! t) of
        [] \<Rightarrow> None
      | op # _ \<Rightarrow>
          if mutex (sreg s) = None \<and> (op = CCloseAll \<longrightarrow> range_order (conns (sreg s)) ord)
          then Some (LLock t, put_pc t (call_start op ord) (s\<lparr>sreg := (sreg s)\<lparr>mutex := Some t\<rparr>\<rparr>))
          else None)"

definition unlock_step :: "tid \<Rightarrow> ('c, 'w) sys \<Rightarrow> ('c, 'w) sys" where
  "unlock_step t s =
     s\<lparr>sreg := (sreg s)\<lparr>mutex := None\<rparr>,
       sthreads := (sthreads s)[t := \<lparr>tpc = Idle, tcalls = tl (tcalls (sthreads s ! t))\<rparr>]\<rparr>"

fun pc_step :: "('c, 'w, 'e) close_method \<Rightarrow> tid \<Rightarrow> 'c pc \<Rightarrow> ('c, 'w) sys \<Rightarrow> 'c label \<times> ('c, 'w) sys" where
  "pc_step close t (InAdd c) s = (LLin t (CAdd c), put_pc t Unlocking (s\<lparr>sreg := Conns_Add c (sreg s)\<rparr>))"
| "pc_step close t (InRemove c) s = (LLin t (CRemove c), put_pc t Unlocking (s\<lparr>sreg := Conns_Remove c (sreg s)\<rparr>))"
| "pc_step close t (InCloseAll (c # cs)) s =
     (LClose t c, put_pc t (InCloseAll cs) (s\<lparr>sworld := snd (close c (sworld s))\<rparr>))"
| "pc_step close t (InCloseAll []) s =
     (LLin t CCloseAll, put_pc t Unlocking (s\<lparr>sreg := (sreg s)\<lparr>conns := Some Map.empty\<rparr>\<rparr>))"
| "pc_step close t Unlocking s = (LUnlock t, unlock_step t s)"
| "pc_step close t Idle s = (LEnv, s)"

definition sched_step ::
  "('c, 'w, 'e) close_method \<Rightarrow> tid \<Rightarrow> 'c list \<Rightarrow> ('c, 'w) sys \<Rightarrow> ('c label \<times> ('c, 'w) sys) option" where
  "sched_step close t ord s =
     (if t < length (sthreads s)
      then (case tpc (sthreads s ! t) of
              Idle \<Rightarrow> lock_step t ord s
            | p \<Rightarrow> Some (pc_step close t p s))
      else None)"

text \<open>
  The step relation of the whole system: a goroutine's step, or an environment step on
  the world.
\<close>

inductive cstep :: "('c, 'w, 'e) close_method \<Rightarrow> ('w \<Rightarrow> 'w \<Rightarrow> bool) \<Rightarrow>
    ('c, 'w) sys \<Rightarrow> 'c label \<Rightarrow> ('c, 'w) sys \<Rightarrow> bool"
  for close env where
  thread: "sched_step close t ord s = Some (l, s') \<Longrightarrow> cstep close env s l s'"
| world: "env (sworld s) w' \<Longrightarrow> cstep close env s LEnv (s\<lparr>sworld := w'\<rparr>)"

text \<open>Runs with their traces.\<close>

inductive csteps :: "('c, 'w, 'e) close_method \<Rightarrow> ('w \<Rightarrow> 'w \<Rightarrow> bool) \<Rightarrow>
    ('c, 'w) sys \<Rightarrow> 'c label list \<Rightarrow> ('c, 'w) sys \<Rightarrow> bool"
  for close env where
  refl: "csteps close env s [] s"
| step: "cstep close env s l s' \<Longrightarrow> csteps close env s' ls s'' \<Longrightarrow> csteps close env s (l # ls) s''"

text \<open>The initial state: a zero-value registry and goroutines about to make their calls.\<close>

definition sys_init :: "'w \<Rightarrow> 'c call list list \<Rightarrow> ('c, 'w) sys" where
  "sys_init w progs =
     \<lparr>sreg = Conns_zero, sworld = w, sthreads = map (\<lambda>p. \<lparr>tpc = Idle, tcalls = p\<rparr>) progs\<rparr>"

text \<open>The abstract effect of a call on the set of members, and the calls a trace linearises.\<close>

fun apply_call :: "'c call \<Rightarrow> 'c set \<Rightarrow> 'c set" where
  "apply_call (CAdd c) A = insert c A"
| "apply_call (CRemove c) A = A - {c}"
| "apply_call CCloseAll A = {}"

fun lin_calls :: "'c label list \<Rightarrow> 'c call list" where
  "lin_calls [] = []"
| "lin_calls (LLin t op # ls) = op # lin_calls ls"
| "lin_calls (_ # ls) = lin_calls ls"

fun pc_ok :: "'c pc \<Rightarrow> 'c call list \<Rightarrow> 'c set \<Rightarrow> bool" where
  "pc_ok Idle cs M = True"
| "pc_ok (InAdd c) cs M = (cs \<noteq> [] \<and> hd cs = CAdd c)"
| "pc_ok (InRemove c) cs M = (cs \<noteq> [] \<and> hd cs = CRemove c)"
| "pc_ok (InCloseAll ks) cs M = (cs \<noteq> [] \<and> hd cs = CCloseAll \<and> distinct ks \<and> set ks \<subseteq> M)"
| "pc_ok Unlocking cs M = (cs \<noteq> [])"

definition sys_inv :: "('c, 'w) sys \<Rightarrow> bool" where
  "sys_inv s \<longleftrightarrow> Conns_wf (sreg s)
     \<and> (\<forall>t < length (sthreads s). pc_ok (tpc (sthreads s ! t)) (tcalls (sthreads s ! t)) (members (sreg s)))
     \<and> (\<forall>t < length (sthreads s). mutex (sreg s) = Some t \<longleftrightarrow> tpc (sthreads s ! t) \<noteq> Idle)
     \<and> (\<forall>t. mutex (sreg s) = Some t \<longrightarrow> t < length (sthreads s))"

text \<open>A measure that every step of a goroutine decreases, lexicographically.\<close>

fun pc_rank :: "'c pc \<Rightarrow> nat" where
  "pc_rank Idle = 0"
| "pc_rank (InAdd c) = 2"
| "pc_rank (InRemove c) = 2"
| "pc_rank (InCloseAll ks) = length ks + 2"
| "pc_rank Unlocking = 1"

definition work_calls :: "('c, 'w) sys \<Rightarrow> nat" where
  "work_calls s = sum_list (map (\<lambda>th. length (tcalls th)) (sthreads s))"

definition work_waiting :: "('c, 'w) sys \<Rightarrow> nat" where
  "work_waiting s = sum_list (map (\<lambda>th. if tpc th = Idle \<and> tcalls th \<noteq> [] then 1 else 0) (sthreads s))"

definition work_pc :: "('c, 'w) sys \<Rightarrow> nat" where
  "work_pc s = sum_list (map (\<lambda>th. pc_rank (tpc th)) (sthreads s))"

text \<open>Every goroutine has made all of its calls.\<close>

definition all_returned :: "('c, 'w) sys \<Rightarrow> bool" where
  "all_returned s \<longleftrightarrow> list_all (\<lambda>th. tcalls th = []) (sthreads s)"

text \<open>The calls of a goroutine that have not taken effect yet.\<close>

definition pending :: "'c thread \<Rightarrow> 'c call list" where
  "pending th = (if tpc th = Unlocking then tl (tcalls th) else tcalls th)"

definition pending_all :: "('c, 'w) sys \<Rightarrow> 'c call multiset" where
  "pending_all s = sum_list (map (\<lambda>th. mset (pending th)) (sthreads s))"

text \<open>
  A run chosen by a scheduler: a list of goroutines to step, each with the iteration
  order the runtime gives a \<open>CloseAll\<close> starting at that step.
\<close>

fun run_sched :: "('c, 'w, 'e) close_method \<Rightarrow> (tid \<times> 'c list) list \<Rightarrow> ('c, 'w) sys \<Rightarrow> ('c label list \<times> ('c, 'w) sys) option" where
  "run_sched close [] s = Some ([], s)"
| "run_sched close ((t, ord) # sch) s =
     (case sched_step close t ord s of
        None \<Rightarrow> None
      | Some (l, s') \<Rightarrow> map_option (\<lambda>(ls, s''). (l # ls, s'')) (run_sched close sch s'))"

text \<open>The labels a goroutine produces from a given point of a call until it unlocks.\<close>

fun pc_future :: "tid \<Rightarrow> 'c pc \<Rightarrow> 'c label list" where
  "pc_future t Idle = []"
| "pc_future t (InAdd c) = [LLin t (CAdd c), LUnlock t]"
| "pc_future t (InRemove c) = [LLin t (CRemove c), LUnlock t]"
| "pc_future t (InCloseAll ks) = map (LClose t) ks @ [LLin t CCloseAll, LUnlock t]"
| "pc_future t Unlocking = [LUnlock t]"

section \<open>Lemmas\<close>

lemma put_pc_simps [simp]:
  "sreg (put_pc t p s) = sreg s"
  "sworld (put_pc t p s) = sworld s"
  "length (sthreads (put_pc t p s)) = length (sthreads s)"
  by (simp_all add: put_pc_def)

lemma put_pc_nth:
  "u < length (sthreads s) \<Longrightarrow>
   sthreads (put_pc t p s) ! u = (if u = t then (sthreads s ! t)\<lparr>tpc := p\<rparr> else sthreads s ! u)"
  by (simp add: put_pc_def)

lemma unlock_step_simps [simp]:
  "sreg (unlock_step t s) = (sreg s)\<lparr>mutex := None\<rparr>"
  "sworld (unlock_step t s) = sworld s"
  "length (sthreads (unlock_step t s)) = length (sthreads s)"
  by (simp_all add: unlock_step_def)

lemma unlock_step_nth:
  "u < length (sthreads s) \<Longrightarrow>
   sthreads (unlock_step t s) ! u =
     (if u = t then \<lparr>tpc = Idle, tcalls = tl (tcalls (sthreads s ! t))\<rparr> else sthreads s ! u)"
  by (simp add: unlock_step_def)

lemma lock_step_Some:
  "lock_step t ord s = Some (l, s') \<longleftrightarrow>
     (\<exists>op ops. tcalls (sthreads s ! t) = op # ops \<and> mutex (sreg s) = None
        \<and> (op = CCloseAll \<longrightarrow> range_order (conns (sreg s)) ord)
        \<and> l = LLock t \<and> s' = put_pc t (call_start op ord) (s\<lparr>sreg := (sreg s)\<lparr>mutex := Some t\<rparr>\<rparr>))"
  by (auto simp: lock_step_def split: list.splits if_splits)

lemma sched_step_Some:
  "sched_step close t ord s = Some (l, s') \<longleftrightarrow>
     t < length (sthreads s) \<and>
     (if tpc (sthreads s ! t) = Idle then lock_step t ord s = Some (l, s')
      else pc_step close t (tpc (sthreads s ! t)) s = (l, s'))"
  by (cases "tpc (sthreads s ! t)") (auto simp: sched_step_def)

text \<open>Which calls a single label linearises, and its effect on membership.\<close>

lemma lock_step_members: "lock_step t ord s = Some (l, s') \<Longrightarrow> members (sreg s') = members (sreg s)"
  by (auto simp: lock_step_Some members_def)

lemma pc_step_members:
  "pc_step close t p s = (l, s') \<Longrightarrow> members (sreg s') = fold apply_call (lin_calls [l]) (members (sreg s))"
  by (induction close t p s rule: pc_step.induct) auto

lemma lock_step_label: "lock_step t ord s = Some (l, s') \<Longrightarrow> lin_calls [l] = []"
  by (auto simp: lock_step_Some)

lemma cstep_members:
  "cstep close env s l s' \<Longrightarrow> members (sreg s') = fold apply_call (lin_calls [l]) (members (sreg s))"
proof (induction rule: cstep.induct)
  case (thread t ord s l s')
  then show ?case
    by (auto simp: sched_step_Some lock_step_members lock_step_label pc_step_members split: if_splits)
next
  case (world s w')
  then show ?case by simp
qed

lemma lin_calls_Cons: "lin_calls (l # ls) = lin_calls [l] @ lin_calls ls"
  by (cases l) simp_all

lemma csteps_linearizable:
  "csteps close env s ls s' \<Longrightarrow> members (sreg s') = fold apply_call (lin_calls ls) (members (sreg s))"
proof (induction rule: csteps.induct)
  case (refl s)
  then show ?case by simp
next
  case (step s l s' ls s'')
  then show ?case by (metis cstep_members fold_append comp_apply lin_calls_Cons)
qed

lemma sys_inv_holder:
  "sys_inv s \<Longrightarrow> u < length (sthreads s) \<Longrightarrow> tpc (sthreads s ! u) \<noteq> Idle \<Longrightarrow> mutex (sreg s) = Some u"
  by (simp add: sys_inv_def)

lemma sys_inv_others_idle:
  "sys_inv s \<Longrightarrow> mutex (sreg s) = Some t \<Longrightarrow> u < length (sthreads s) \<Longrightarrow> u \<noteq> t \<Longrightarrow> tpc (sthreads s ! u) = Idle"
  by (auto simp: sys_inv_def)

lemma pc_ok_call_start:
  "(op = CCloseAll \<longrightarrow> range_order g ord) \<Longrightarrow> pc_ok (call_start op ord) (op # ops) (gomap_keys g)"
  by (cases op) (auto simp: range_order_def)

lemma lock_step_inv:
  assumes inv: "sys_inv s" and t: "t < length (sthreads s)" and idle: "tpc (sthreads s ! t) = Idle"
    and step: "lock_step t ord s = Some (l, s')"
  shows "sys_inv s'"
proof -
  from step obtain op ops where calls: "tcalls (sthreads s ! t) = op # ops"
    and free: "mutex (sreg s) = None" and ord: "op = CCloseAll \<longrightarrow> range_order (conns (sreg s)) ord"
    and s': "s' = put_pc t (call_start op ord) (s\<lparr>sreg := (sreg s)\<lparr>mutex := Some t\<rparr>\<rparr>)"
    by (auto simp: lock_step_Some)
  have all_idle: "\<forall>u < length (sthreads s). tpc (sthreads s ! u) = Idle"
    using inv free by (auto simp: sys_inv_def)
  have wf: "Conns_wf ((sreg s)\<lparr>mutex := Some t\<rparr>)"
    using inv by (simp add: sys_inv_def Conns_wf_def members_def)
  have start: "pc_ok (call_start op ord) (op # ops) (members (sreg s))"
    using pc_ok_call_start [OF ord] by (simp add: members_def)
  have nidle: "call_start op ord \<noteq> Idle" by (cases op) simp_all
  show ?thesis
    unfolding sys_inv_def s' using wf start nidle calls t all_idle
    by (auto simp: put_pc_nth)
qed

lemma pc_step_inv:
  assumes inv: "sys_inv s" and t: "t < length (sthreads s)" and p: "tpc (sthreads s ! t) = p"
    and busy: "p \<noteq> Idle" and step: "pc_step close t p s = (l, s')"
  shows "sys_inv s'"
proof -
  have mt: "mutex (sreg s) = Some t" using sys_inv_holder [OF inv t] p busy by simp
  have others: "\<forall>u < length (sthreads s). u \<noteq> t \<longrightarrow> tpc (sthreads s ! u) = Idle"
    using sys_inv_others_idle [OF inv mt] by blast
  have ok: "pc_ok p (tcalls (sthreads s ! t)) (members (sreg s))"
    using inv t unfolding sys_inv_def by (simp add: p [symmetric])
  have wf: "Conns_wf (sreg s)" using inv by (simp add: sys_inv_def)
  show ?thesis
  proof (cases p)
    case Idle
    with busy show ?thesis by simp
  next
    case (InAdd c)
    with step have s': "s' = put_pc t Unlocking (s\<lparr>sreg := Conns_Add c (sreg s)\<rparr>)" by simp
    show ?thesis unfolding sys_inv_def s' using t mt others ok InAdd Conns_Add_wf [OF wf]
      by (auto simp: put_pc_nth)
  next
    case (InRemove c)
    with step have s': "s' = put_pc t Unlocking (s\<lparr>sreg := Conns_Remove c (sreg s)\<rparr>)" by simp
    show ?thesis unfolding sys_inv_def s' using t mt others ok InRemove Conns_Remove_wf [OF wf]
      by (auto simp: put_pc_nth)
  next
    case (InCloseAll ks)
    show ?thesis
    proof (cases ks)
      case Nil
      with InCloseAll step have s': "s' = put_pc t Unlocking (s\<lparr>sreg := (sreg s)\<lparr>conns := Some Map.empty\<rparr>\<rparr>)"
        by simp
      show ?thesis unfolding sys_inv_def s' using t mt others ok InCloseAll
        by (auto simp: put_pc_nth)
    next
      case (Cons c cs)
      with InCloseAll step have s': "s' = put_pc t (InCloseAll cs) (s\<lparr>sworld := snd (close c (sworld s))\<rparr>)"
        by simp
      show ?thesis unfolding sys_inv_def s' using t mt others ok InCloseAll Cons wf
        by (auto simp: put_pc_nth)
    qed
  next
    case Unlocking
    with step have s': "s' = unlock_step t s" by simp
    show ?thesis unfolding sys_inv_def s' using t mt others wf
      by (auto simp: unlock_step_nth Conns_wf_def)
  qed
qed

lemma cstep_inv: "cstep close env s l s' \<Longrightarrow> sys_inv s \<Longrightarrow> sys_inv s'"
proof (induction rule: cstep.induct)
  case (thread t ord s l s')
  then have t: "t < length (sthreads s)" by (simp add: sched_step_Some)
  show ?case
  proof (cases "tpc (sthreads s ! t) = Idle")
    case True
    with thread.hyps have "lock_step t ord s = Some (l, s')" by (simp add: sched_step_Some)
    with thread.prems t True show ?thesis by (rule lock_step_inv)
  next
    case False
    with thread.hyps have "pc_step close t (tpc (sthreads s ! t)) s = (l, s')"
      by (simp add: sched_step_Some)
    with thread.prems t False show ?thesis by (blast intro: pc_step_inv)
  qed
next
  case (world s w')
  then show ?case by (simp add: sys_inv_def)
qed

lemma csteps_inv: "csteps close env s ls s' \<Longrightarrow> sys_inv s \<Longrightarrow> sys_inv s'"
  by (induction rule: csteps.induct) (blast intro: cstep_inv)+

lemma sys_init_inv: "sys_inv (sys_init w progs)"
  by (simp add: sys_inv_def sys_init_def Conns_zero_def Conns_wf_def members_def)

lemma sched_step_blocked:
  assumes inv: "sys_inv s" and t: "t < length (sthreads s)" and busy: "tpc (sthreads s ! t) \<noteq> Idle"
    and u: "u \<noteq> t"
  shows "sched_step close u ord s = None"
proof (cases "u < length (sthreads s)")
  case True
  have mt: "mutex (sreg s) = Some t" by (rule sys_inv_holder [OF inv t busy])
  from inv mt True u have "tpc (sthreads s ! u) = Idle" by (rule sys_inv_others_idle)
  with mt True show ?thesis by (auto simp: sched_step_def lock_step_def split: list.splits)
next
  case False
  then show ?thesis by (simp add: sched_step_def)
qed

lemma sched_step_progress:
  assumes inv: "sys_inv s" and t: "t < length (sthreads s)" and calls: "tcalls (sthreads s ! t) \<noteq> []"
  shows "\<exists>u ord l s'. sched_step close u ord s = Some (l, s')"
proof (cases "mutex (sreg s)")
  case None
  then have idle: "tpc (sthreads s ! t) = Idle" using inv t by (auto simp: sys_inv_def)
  have "finite (gomap_keys (conns (sreg s)))" using inv by (simp add: sys_inv_def Conns_wf_def members_def)
  then obtain ord where ord: "range_order (conns (sreg s)) ord" using range_order_exists by blast
  from calls obtain op ops where "tcalls (sthreads s ! t) = op # ops" by (cases "tcalls (sthreads s ! t)") auto
  with None ord idle t have "sched_step close t ord s
      = Some (LLock t, put_pc t (call_start op ord) (s\<lparr>sreg := (sreg s)\<lparr>mutex := Some t\<rparr>\<rparr>))"
    by (simp add: sched_step_def lock_step_def)
  then show ?thesis by blast
next
  case (Some u)
  then have u: "u < length (sthreads s)" and busy: "tpc (sthreads s ! u) \<noteq> Idle"
    using inv by (auto simp: sys_inv_def)
  then have "sched_step close u [] s = Some (pc_step close u (tpc (sthreads s ! u)) s)"
    by (cases "tpc (sthreads s ! u)") (simp_all add: sched_step_def)
  then show ?thesis by (cases "pc_step close u (tpc (sthreads s ! u)) s") auto
qed

lemma put_pc_measures:
  assumes t: "t < length (sthreads s)" and busy: "tpc (sthreads s ! t) \<noteq> Idle" and p: "p \<noteq> Idle"
    and less: "pc_rank p < pc_rank (tpc (sthreads s ! t))" and same: "sthreads s' = sthreads s"
  shows "(put_pc t p s', s) \<in> measures [work_calls, work_waiting, work_pc]"
proof -
  let ?th = "(sthreads s ! t)\<lparr>tpc := p\<rparr>"
  have eqs: "sthreads (put_pc t p s') = (sthreads s)[t := ?th]" using same by (simp add: put_pc_def)
  have "work_calls (put_pc t p s') = work_calls s"
    unfolding work_calls_def eqs by (rule sum_list_map_update_eq [OF t]) simp
  moreover have "work_waiting (put_pc t p s') = work_waiting s"
    unfolding work_waiting_def eqs by (rule sum_list_map_update_eq [OF t]) (simp add: p busy)
  moreover have "work_pc (put_pc t p s') < work_pc s"
    unfolding work_pc_def eqs by (rule sum_list_map_update_less [OF t]) (simp add: less)
  ultimately show ?thesis by simp
qed

lemma sched_step_measures:
  assumes "sched_step close t ord s = Some (l, s')"
  shows "(s', s) \<in> measures [work_calls, work_waiting, work_pc]"
proof -
  from assms have t: "t < length (sthreads s)" by (simp add: sched_step_Some)
  show ?thesis
  proof (cases "tpc (sthreads s ! t)")
    case Idle
    with assms t obtain op ops where calls: "tcalls (sthreads s ! t) = op # ops"
      and s': "s' = put_pc t (call_start op ord) (s\<lparr>sreg := (sreg s)\<lparr>mutex := Some t\<rparr>\<rparr>)"
      by (auto simp: sched_step_Some lock_step_Some)
    let ?th = "(sthreads s ! t)\<lparr>tpc := call_start op ord\<rparr>"
    have eqs: "sthreads s' = (sthreads s)[t := ?th]" by (simp add: s' put_pc_def)
    have nidle: "call_start op ord \<noteq> Idle" by (cases op) simp_all
    have "work_calls s' = work_calls s"
      unfolding work_calls_def eqs by (rule sum_list_map_update_eq [OF t]) simp
    moreover have "work_waiting s' < work_waiting s"
      unfolding work_waiting_def eqs by (rule sum_list_map_update_less [OF t]) (simp add: Idle calls nidle)
    ultimately show ?thesis by simp
  next
    case (InAdd c)
    with assms t have s': "s' = put_pc t Unlocking (s\<lparr>sreg := Conns_Add c (sreg s)\<rparr>)"
      by (simp add: sched_step_Some)
    show ?thesis unfolding s' by (rule put_pc_measures) (simp_all add: t InAdd)
  next
    case (InRemove c)
    with assms t have s': "s' = put_pc t Unlocking (s\<lparr>sreg := Conns_Remove c (sreg s)\<rparr>)"
      by (simp add: sched_step_Some)
    show ?thesis unfolding s' by (rule put_pc_measures) (simp_all add: t InRemove)
  next
    case (InCloseAll ks)
    show ?thesis
    proof (cases ks)
      case Nil
      with InCloseAll assms t have s': "s' = put_pc t Unlocking (s\<lparr>sreg := (sreg s)\<lparr>conns := Some Map.empty\<rparr>\<rparr>)"
        by (simp add: sched_step_Some)
      show ?thesis unfolding s' by (rule put_pc_measures) (simp_all add: t InCloseAll Nil)
    next
      case (Cons c cs)
      with InCloseAll assms t have s': "s' = put_pc t (InCloseAll cs) (s\<lparr>sworld := snd (close c (sworld s))\<rparr>)"
        by (simp add: sched_step_Some)
      show ?thesis unfolding s' by (rule put_pc_measures) (simp_all add: t InCloseAll Cons)
    qed
  next
    case Unlocking
    with assms t have s': "s' = unlock_step t s" by (simp add: sched_step_Some)
    let ?th = "\<lparr>tpc = Idle, tcalls = tl (tcalls (sthreads s ! t))\<rparr>"
    have eqs: "sthreads s' = (sthreads s)[t := ?th]" by (simp add: s' unlock_step_def)
    show ?thesis
    proof (cases "tcalls (sthreads s ! t)")
      case Nil
      have "work_calls s' = work_calls s"
        unfolding work_calls_def eqs by (rule sum_list_map_update_eq [OF t]) (simp add: Nil)
      moreover have "work_waiting s' = work_waiting s"
        unfolding work_waiting_def eqs by (rule sum_list_map_update_eq [OF t]) (simp add: Nil Unlocking)
      moreover have "work_pc s' < work_pc s"
        unfolding work_pc_def eqs by (rule sum_list_map_update_less [OF t]) (simp add: Unlocking)
      ultimately show ?thesis by simp
    next
      case (Cons op ops)
      have "work_calls s' < work_calls s"
        unfolding work_calls_def eqs by (rule sum_list_map_update_less [OF t]) (simp add: Cons)
      then show ?thesis by simp
    qed
  qed
qed

lemma pending_all_put_pc:
  assumes t: "t < length (sthreads s)" and same: "sthreads s' = sthreads s"
  shows "pending_all (put_pc t p s') + mset (pending (sthreads s ! t))
    = pending_all s + mset (pending ((sthreads s ! t)\<lparr>tpc := p\<rparr>))"
  unfolding pending_all_def using sum_list_map_update [OF t] same by (simp add: put_pc_def)

lemma sched_step_pending:
  assumes inv: "sys_inv s" and st: "sched_step close t ord s = Some (l, s')"
  shows "mset (lin_calls [l]) + pending_all s' = pending_all s"
proof -
  from st have t: "t < length (sthreads s)" by (simp add: sched_step_Some)
  have ok: "pc_ok (tpc (sthreads s ! t)) (tcalls (sthreads s ! t)) (members (sreg s))"
    using inv t by (simp add: sys_inv_def)
  show ?thesis
  proof (cases "tpc (sthreads s ! t)")
    case Idle
    with st t obtain op ops where calls: "tcalls (sthreads s ! t) = op # ops" and l: "l = LLock t"
      and s': "s' = put_pc t (call_start op ord) (s\<lparr>sreg := (sreg s)\<lparr>mutex := Some t\<rparr>\<rparr>)"
      by (auto simp: sched_step_Some lock_step_Some)
    have "call_start op ord \<noteq> Unlocking" by (cases op) simp_all
    with pending_all_put_pc [OF t, of "s\<lparr>sreg := (sreg s)\<lparr>mutex := Some t\<rparr>\<rparr>" "call_start op ord"] Idle l
    show ?thesis by (simp add: s' pending_def)
  next
    case (InAdd c)
    with st t have s': "s' = put_pc t Unlocking (s\<lparr>sreg := Conns_Add c (sreg s)\<rparr>)" and l: "l = LLin t (CAdd c)"
      by (simp_all add: sched_step_Some)
    from ok InAdd obtain r where "tcalls (sthreads s ! t) = CAdd c # r" by (cases "tcalls (sthreads s ! t)") auto
    with pending_all_put_pc [OF t, of "s\<lparr>sreg := Conns_Add c (sreg s)\<rparr>" Unlocking] InAdd l
    show ?thesis by (simp add: s' pending_def add.commute)
  next
    case (InRemove c)
    with st t have s': "s' = put_pc t Unlocking (s\<lparr>sreg := Conns_Remove c (sreg s)\<rparr>)" and l: "l = LLin t (CRemove c)"
      by (simp_all add: sched_step_Some)
    from ok InRemove obtain r where "tcalls (sthreads s ! t) = CRemove c # r" by (cases "tcalls (sthreads s ! t)") auto
    with pending_all_put_pc [OF t, of "s\<lparr>sreg := Conns_Remove c (sreg s)\<rparr>" Unlocking] InRemove l
    show ?thesis by (simp add: s' pending_def add.commute)
  next
    case (InCloseAll ks)
    show ?thesis
    proof (cases ks)
      case Nil
      with InCloseAll st t have s': "s' = put_pc t Unlocking (s\<lparr>sreg := (sreg s)\<lparr>conns := Some Map.empty\<rparr>\<rparr>)"
        and l: "l = LLin t CCloseAll"
        by (simp_all add: sched_step_Some)
      from ok InCloseAll obtain r where "tcalls (sthreads s ! t) = CCloseAll # r"
        by (cases "tcalls (sthreads s ! t)") auto
      with pending_all_put_pc [OF t, of "s\<lparr>sreg := (sreg s)\<lparr>conns := Some Map.empty\<rparr>\<rparr>" Unlocking] InCloseAll l
      show ?thesis by (simp add: s' pending_def add.commute)
    next
      case (Cons c cs)
      with InCloseAll st t have s': "s' = put_pc t (InCloseAll cs) (s\<lparr>sworld := snd (close c (sworld s))\<rparr>)"
        and l: "l = LClose t c"
        by (simp_all add: sched_step_Some)
      with pending_all_put_pc [OF t, of "s\<lparr>sworld := snd (close c (sworld s))\<rparr>" "InCloseAll cs"] InCloseAll
      show ?thesis by (simp add: pending_def)
    qed
  next
    case Unlocking
    with st t have s': "s' = unlock_step t s" and l: "l = LUnlock t" by (simp_all add: sched_step_Some)
    have "pending_all s' + mset (pending (sthreads s ! t))
        = pending_all s + mset (pending \<lparr>tpc = Idle, tcalls = tl (tcalls (sthreads s ! t))\<rparr>)"
      unfolding pending_all_def s' using sum_list_map_update [OF t] by (simp add: unlock_step_def)
    with Unlocking l show ?thesis by (simp add: pending_def)
  qed
qed

lemma cstep_pending:
  "cstep close env s l s' \<Longrightarrow> sys_inv s \<Longrightarrow> mset (lin_calls [l]) + pending_all s' = pending_all s"
proof (induction rule: cstep.induct)
  case (thread t ord s l s')
  then show ?case by (blast intro: sched_step_pending)
next
  case (world s w')
  then show ?case by (simp add: pending_all_def)
qed

lemma csteps_pending:
  "csteps close env s ls s' \<Longrightarrow> sys_inv s \<Longrightarrow> mset (lin_calls ls) + pending_all s' = pending_all s"
proof (induction rule: csteps.induct)
  case (refl s)
  then show ?case by simp
next
  case (step s l s' ls s'')
  then have "sys_inv s'" by (blast intro: cstep_inv)
  with step have "mset (lin_calls ls) + pending_all s'' = pending_all s'" by blast
  moreover have "mset (lin_calls [l]) + pending_all s' = pending_all s"
    using step by (blast intro: cstep_pending)
  ultimately show ?case by (metis lin_calls_Cons mset_append add.assoc)
qed

lemma pending_list_done:
  "\<forall>th \<in> set ths. tcalls th = [] \<Longrightarrow> sum_list (map (\<lambda>th. mset (pending th)) ths) = {#}"
  by (induction ths) (simp_all add: pending_def)

lemma pending_all_done:
  "all_returned s \<Longrightarrow> pending_all s = {#}"
  unfolding pending_all_def by (rule pending_list_done) (simp add: all_returned_def list_all_iff)

lemma run_sched_csteps: "run_sched close sch s = Some (ls, s') \<Longrightarrow> csteps close env s ls s'"
proof (induction sch arbitrary: s ls)
  case Nil
  then show ?case by (simp add: csteps.refl)
next
  case (Cons a sch)
  obtain t ord where a: "a = (t, ord)" by fastforce
  from Cons.prems a obtain l s1 ls1 where st: "sched_step close t ord s = Some (l, s1)"
    and rest: "run_sched close sch s1 = Some (ls1, s')" and ls: "ls = l # ls1"
    by (auto split: option.splits)
  from st have "cstep close env s l s1" by (rule cstep.thread)
  with Cons.IH [OF rest] ls show ?case by (blast intro: csteps.step)
qed

lemma sched_step_not_env: "sched_step close t ord s = Some (l, s') \<Longrightarrow> l \<noteq> LEnv"
  by (cases "tpc (sthreads s ! t)") (auto simp: sched_step_Some lock_step_Some elim: pc_step.elims)

lemma completion:
  "sys_inv s \<Longrightarrow> \<exists>ls s'. csteps close env s ls s' \<and> LEnv \<notin> set ls
     \<and> (all_returned s')"
proof (induction s rule: wf_induct [OF wf_measures [of "[work_calls, work_waiting, work_pc]"]])
  case (1 s)
  show ?case
  proof (cases "all_returned s")
    case True
    have "csteps close env s [] s" by (rule csteps.refl)
    with True show ?thesis by fastforce
  next
    case False
    then obtain t where "t < length (sthreads s)" "tcalls (sthreads s ! t) \<noteq> []"
      by (auto simp: all_returned_def list_all_length)
    with "1.prems" obtain u ord l s1 where st: "sched_step close u ord s = Some (l, s1)"
      using sched_step_progress by blast
    have inv1: "sys_inv s1" using cstep_inv [OF cstep.thread [OF st] "1.prems"] .
    from "1.IH" [rule_format, OF sched_step_measures [OF st] inv1] obtain ls s' where
      cs: "csteps close env s1 ls s'" and nenv: "LEnv \<notin> set ls"
      and fin: "all_returned s'"
      by blast
    have "csteps close env s (l # ls) s'" by (rule csteps.step [OF cstep.thread [OF st] cs])
    moreover have "LEnv \<notin> set (l # ls)" using sched_step_not_env [OF st] nenv by simp
    ultimately show ?thesis using fin by blast
  qed
qed

lemma pc_step_future:
  assumes "t < length (sthreads s)" "p \<noteq> Idle" "pc_step close t p s = (l, s')"
  shows "l # pc_future t (tpc (sthreads s' ! t)) = pc_future t p"
  using assms
  by (induction close t p s rule: pc_step.induct) (auto simp: put_pc_nth unlock_step_nth)

lemma pc_step_length: "pc_step close t p s = (l, s') \<Longrightarrow> length (sthreads s') = length (sthreads s)"
  by (induction close t p s rule: pc_step.induct) auto

lemma holder_future:
  assumes "csteps close env s ls s'" "sys_inv s" "t < length (sthreads s)"
  shows "prefix (take (length (pc_future t (tpc (sthreads s ! t)))) (filter (\<lambda>l. l \<noteq> LEnv) ls))
           (pc_future t (tpc (sthreads s ! t)))"
  using assms
proof (induction arbitrary: rule: csteps.induct)
  case (refl s)
  then show ?case by simp
next
  case (step s l s1 ls s')
  have inv1: "sys_inv s1" using cstep_inv [OF step.hyps(1) step.prems(1)] .
  show ?case
  proof (cases "tpc (sthreads s ! t) = Idle")
    case True
    then show ?thesis by simp
  next
    case busy: False
    from step.hyps(1) show ?thesis
    proof (cases rule: cstep.cases)
      case (thread u ord)
      have u: "u = t"
        using sched_step_blocked [OF step.prems(1) step.prems(2) busy, of u close ord] thread by fastforce
      with thread have pst: "pc_step close t (tpc (sthreads s ! t)) s = (l, s1)"
        using busy by (auto simp: sched_step_Some)
      have t1: "t < length (sthreads s1)" using pc_step_length [OF pst] step.prems(2) by simp
      have fut: "l # pc_future t (tpc (sthreads s1 ! t)) = pc_future t (tpc (sthreads s ! t))"
        by (rule pc_step_future [OF step.prems(2) busy pst])
      have ne: "l \<noteq> LEnv" using sched_step_not_env thread by blast
      have "prefix (take (length (pc_future t (tpc (sthreads s1 ! t)))) (filter (\<lambda>l. l \<noteq> LEnv) ls))
          (pc_future t (tpc (sthreads s1 ! t)))"
        by (rule step.IH [OF inv1 t1])
      then have "prefix (take (length (l # pc_future t (tpc (sthreads s1 ! t)))) (filter (\<lambda>l. l \<noteq> LEnv) (l # ls)))
          (l # pc_future t (tpc (sthreads s1 ! t)))"
        using ne by simp
      then show ?thesis unfolding fut .
    next
      case (world w')
      with step.IH [OF inv1] step.prems(2) show ?thesis by simp
    qed
  qed
qed

lemma fold_apply_call_adds:
  "\<forall>op \<in> set ops. \<exists>c. op = CAdd c \<Longrightarrow> fold apply_call ops A = A \<union> {c. CAdd c \<in> set ops}"
  by (induction ops arbitrary: A) auto

lemmas sched_eval = sys_init_def sched_step_def lock_step_def put_pc_def unlock_step_def
  Conns_zero_def log_close_def range_order_def

lemma pc_step_not_lock: "fst (pc_step close t p s) \<noteq> LLock u"
  by (induction close t p s rule: pc_step.induct) simp_all

text \<open>Positions a call starts in, and the world a step leaves: only a loop step acts on it.\<close>

lemma pending_tpc_update [simp]: "p \<noteq> Unlocking \<Longrightarrow> pending (th\<lparr>tpc := p\<rparr>) = tcalls th"
  by (simp add: pending_def)

lemma call_start_not_Unlocking [simp]: "call_start op ord \<noteq> Unlocking"
  by (cases op) simp_all

lemma pc_step_world:
  "pc_step close t p s = (l, s') \<Longrightarrow>
     sworld s' = (case l of LClose u c \<Rightarrow> snd (close c (sworld s)) | _ \<Rightarrow> sworld s)"
  by (induction close t p s rule: pc_step.induct) auto

lemma sched_step_world:
  assumes "sched_step close t ord s = Some (l, s')"
  shows "sworld s' = (case l of LClose u c \<Rightarrow> snd (close c (sworld s)) | _ \<Rightarrow> sworld s)"
proof (cases "tpc (sthreads s ! t) = Idle")
  case True
  with assms obtain op where "l = LLock t"
    and "s' = put_pc t (call_start op ord) (s\<lparr>sreg := (sreg s)\<lparr>mutex := Some t\<rparr>\<rparr>)"
    by (auto simp: sched_step_Some lock_step_Some)
  then show ?thesis by simp
next
  case False
  with assms have "pc_step close t (tpc (sthreads s ! t)) s = (l, s')" by (simp add: sched_step_Some)
  then show ?thesis by (rule pc_step_world)
qed

lemma closeAll_lock_future:
  assumes "csteps close env (sys_init w progs) ls0 s"
    and "sched_step close t ord s = Some (LLock t, s1)"
    and "tcalls (sthreads s ! t) \<noteq> []" and "hd (tcalls (sthreads s ! t)) = CCloseAll"
    and "csteps close env s1 ls s'"
  shows "range_order (conns (sreg s)) ord
    \<and> prefix (take (length ord + 2) (filter (\<lambda>l. l \<noteq> LEnv) ls))
         (map (LClose t) ord @ [LLin t CCloseAll, LUnlock t])"
proof -
  have inv: "sys_inv s" by (rule csteps_inv [OF assms(1) sys_init_inv])
  from assms(2) have t: "t < length (sthreads s)" by (simp add: sched_step_Some)
  have idle: "tpc (sthreads s ! t) = Idle"
  proof (rule ccontr)
    assume "tpc (sthreads s ! t) \<noteq> Idle"
    with assms(2) t have "pc_step close t (tpc (sthreads s ! t)) s = (LLock t, s1)"
      by (simp add: sched_step_Some)
    then show False using pc_step_not_lock [of close t "tpc (sthreads s ! t)" s t] by simp
  qed
  with assms(2-4) obtain ops where calls: "tcalls (sthreads s ! t) = CCloseAll # ops"
    and ord: "range_order (conns (sreg s)) ord"
    and s1: "s1 = put_pc t (InCloseAll ord) (s\<lparr>sreg := (sreg s)\<lparr>mutex := Some t\<rparr>\<rparr>)"
    by (cases "tcalls (sthreads s ! t)") (auto simp: sched_step_Some lock_step_Some)
  have inv1: "sys_inv s1" by (rule cstep_inv [OF cstep.thread [OF assms(2)] inv])
  have t1: "t < length (sthreads s1)" and pc1: "tpc (sthreads s1 ! t) = InCloseAll ord"
    using t by (simp_all add: s1 put_pc_nth)
  from holder_future [OF assms(5) inv1 t1] pc1 ord show ?thesis by simp
qed

section \<open>Properties of the concurrent registry\<close>

text \<open>
  C3. The registry's mutex serialises its methods: in every state reachable from the
  zero-value registry, while one goroutine is inside a call (between its \<open>Lock\<close> and
  its deferred \<open>Unlock\<close>), no other goroutine can take any step on the registry.
\<close>

theorem mutex_serialises:
  assumes "csteps close env (sys_init w progs) ls s"
    and "t < length (sthreads s)" and "tpc (sthreads s ! t) \<noteq> Idle" and "u \<noteq> t"
  shows "sched_step close u ord s = None"
proof -
  have "sys_inv s" using csteps_inv [OF assms(1) sys_init_inv] .
  then show ?thesis using sched_step_blocked assms(2-4) by blast
qed

theorem mutex_serialises_witness:
  "csteps log_close (\<lambda>_ _. False) (sys_init [] [[CAdd (1::nat)], [CAdd 2]]) [LLock 0]
      \<lparr>sreg = \<lparr>mutex = Some 0, conns = None\<rparr>, sworld = [] :: nat list,
       sthreads = [\<lparr>tpc = InAdd 1, tcalls = [CAdd 1]\<rparr>, \<lparr>tpc = Idle, tcalls = [CAdd 2]\<rparr>]\<rparr>
   \<and> 0 < length (sthreads \<lparr>sreg = \<lparr>mutex = Some 0, conns = None\<rparr>, sworld = [] :: nat list,
       sthreads = [\<lparr>tpc = InAdd (1::nat), tcalls = [CAdd 1]\<rparr>, \<lparr>tpc = Idle, tcalls = [CAdd 2]\<rparr>]\<rparr>)
   \<and> sched_step log_close 1 [] \<lparr>sreg = \<lparr>mutex = Some 0, conns = None\<rparr>, sworld = [] :: nat list,
       sthreads = [\<lparr>tpc = InAdd (1::nat), tcalls = [CAdd 1]\<rparr>, \<lparr>tpc = Idle, tcalls = [CAdd 2]\<rparr>]\<rparr> = None"
proof -
  let ?s = "\<lparr>sreg = \<lparr>mutex = Some 0, conns = None\<rparr>, sworld = [] :: nat list,
       sthreads = [\<lparr>tpc = InAdd (1::nat), tcalls = [CAdd 1]\<rparr>, \<lparr>tpc = Idle, tcalls = [CAdd 2]\<rparr>]\<rparr>
       :: (nat, nat list) sys"
  have h1: "csteps log_close (\<lambda>_ _. False) (sys_init [] [[CAdd (1::nat)], [CAdd 2]]) [LLock 0] ?s"
    by (rule run_sched_csteps [where sch = "[(0, [])]"]) (simp add: sched_eval)
  have h2: "0 < length (sthreads ?s)" by simp
  have h3: "tpc (sthreads ?s ! 0) \<noteq> Idle" by simp
  have h4: "(1::nat) \<noteq> 0" by simp
  show ?thesis using h1 h2 mutex_serialises [OF h1 h2 h3 h4, of "[]"] by blast
qed

text \<open>
  C7. \<open>N\<close> goroutines, each adding a different connection to a zero-value registry
  concurrently: once all have returned, the registry has exactly \<open>N\<close> members.
\<close>

theorem concurrent_distinct_adds:
  assumes "csteps close env (sys_init w (map (\<lambda>c. [CAdd c]) cs)) ls s"
    and "all_returned s"
    and "distinct cs"
  shows "card (members (sreg s)) = length cs"
proof -
  have sys: "sys_inv (sys_init w (map (\<lambda>c. [CAdd c]) cs))" by (rule sys_init_inv)
  have "mset (lin_calls ls) + pending_all s = pending_all (sys_init w (map (\<lambda>c. [CAdd c]) cs))"
    by (rule csteps_pending [OF assms(1) sys])
  moreover have "pending_all s = {#}" by (rule pending_all_done [OF assms(2)])
  moreover have "pending_all (sys_init w (map (\<lambda>c. [CAdd c]) cs)) = mset (map CAdd cs)"
    by (induction cs) (simp_all add: pending_all_def sys_init_def pending_def)
  ultimately have lin: "mset (lin_calls ls) = mset (map CAdd cs)" by simp
  then have set_lin: "set (lin_calls ls) = CAdd ` set cs" by (metis mset_eq_setD set_map)
  have "members (sreg s) = fold apply_call (lin_calls ls) (members (sreg (sys_init w (map (\<lambda>c. [CAdd c]) cs))))"
    by (rule csteps_linearizable [OF assms(1)])
  also have "\<dots> = {c. CAdd c \<in> set (lin_calls ls)}"
    using set_lin by (subst fold_apply_call_adds) (auto simp: sys_init_def)
  also have "\<dots> = set cs" using set_lin by auto
  finally show ?thesis using assms(3) by (simp add: distinct_card)
qed

lemma two_adds_run:
  "csteps log_close (\<lambda>_ _. False) (sys_init [] [[CAdd (1::nat)], [CAdd 2]])
      [LLock 0, LLin 0 (CAdd (1::nat)), LUnlock 0, LLock 1, LLin 1 (CAdd 2), LUnlock 1]
      \<lparr>sreg = \<lparr>mutex = None, conns = Some [1::nat \<mapsto> True, 2 \<mapsto> True]\<rparr>, sworld = [] :: nat list,
       sthreads = [\<lparr>tpc = Idle, tcalls = []\<rparr>, \<lparr>tpc = Idle, tcalls = []\<rparr>]\<rparr>"
  by (rule run_sched_csteps [where sch = "[(0, []), (0, []), (0, []), (1, []), (1, []), (1, [])]"]) (simp add: sched_eval)

theorem concurrent_distinct_adds_witness:
  "csteps log_close (\<lambda>_ _. False) (sys_init [] (map (\<lambda>c. [CAdd c]) [1::nat, 2])) [LLock 0, LLin 0 (CAdd (1::nat)), LUnlock 0, LLock 1, LLin 1 (CAdd 2), LUnlock 1] \<lparr>sreg = \<lparr>mutex = None, conns = Some [1::nat \<mapsto> True, 2 \<mapsto> True]\<rparr>, sworld = [] :: nat list,
       sthreads = [\<lparr>tpc = Idle, tcalls = []\<rparr>, \<lparr>tpc = Idle, tcalls = []\<rparr>]\<rparr>
   \<and> (all_returned \<lparr>sreg = \<lparr>mutex = None, conns = Some [1::nat \<mapsto> True, 2 \<mapsto> True]\<rparr>, sworld = [] :: nat list,
       sthreads = [\<lparr>tpc = Idle, tcalls = []\<rparr>, \<lparr>tpc = Idle, tcalls = []\<rparr>]\<rparr>)
   \<and> distinct [1::nat, 2]
   \<and> card (members (sreg \<lparr>sreg = \<lparr>mutex = None, conns = Some [1::nat \<mapsto> True, 2 \<mapsto> True]\<rparr>, sworld = [] :: nat list,
       sthreads = [\<lparr>tpc = Idle, tcalls = []\<rparr>, \<lparr>tpc = Idle, tcalls = []\<rparr>]\<rparr>)) = length [1::nat, 2]"
proof -
  have h1: "csteps log_close (\<lambda>_ _. False) (sys_init [] (map (\<lambda>c. [CAdd c]) [1::nat, 2])) [LLock 0, LLin 0 (CAdd (1::nat)), LUnlock 0, LLock 1, LLin 1 (CAdd 2), LUnlock 1] \<lparr>sreg = \<lparr>mutex = None, conns = Some [1::nat \<mapsto> True, 2 \<mapsto> True]\<rparr>, sworld = [] :: nat list,
       sthreads = [\<lparr>tpc = Idle, tcalls = []\<rparr>, \<lparr>tpc = Idle, tcalls = []\<rparr>]\<rparr>"
    using two_adds_run by simp
  have h2: "all_returned \<lparr>sreg = \<lparr>mutex = None, conns = Some [1::nat \<mapsto> True, 2 \<mapsto> True]\<rparr>, sworld = [] :: nat list,
       sthreads = [\<lparr>tpc = Idle, tcalls = []\<rparr>, \<lparr>tpc = Idle, tcalls = []\<rparr>]\<rparr>"
    by (simp add: all_returned_def)
  have h3: "distinct [1::nat, 2]" by simp
  show ?thesis by (rule conjI [OF h1 conjI [OF h2 conjI [OF h3 concurrent_distinct_adds [OF h1 h2 h3]]]])
qed

text \<open>
  C8. No deadlock: in every reachable state in which some goroutine still has a call
  to make, some goroutine can take a step on the registry.
\<close>

theorem registry_deadlock_free:
  assumes "csteps close env (sys_init w progs) ls s"
    and "t < length (sthreads s)" and "tcalls (sthreads s ! t) \<noteq> []"
  shows "\<exists>u ord l s'. sched_step close u ord s = Some (l, s')"
  using sched_step_progress [OF csteps_inv [OF assms(1) sys_init_inv] assms(2,3)] .

text \<open>
  C9. Every goroutine returns: from every reachable state there is a run of registry
  steps alone (no help from the environment) after which every goroutine has made all
  of its calls.
\<close>

theorem all_goroutines_return:
  assumes "csteps close env (sys_init w progs) ls s"
  shows "\<exists>ls' s'. csteps close env s ls' s' \<and> LEnv \<notin> set ls'
     \<and> (all_returned s')"
  by (rule completion [OF csteps_inv [OF assms sys_init_inv]])

text \<open>
  C2. \<open>CloseAll\<close> under concurrency: when a goroutine's \<open>Lock\<close> starts
  \<open>CloseAll\<close>, the iteration order is an enumeration of exactly the members at that
  moment, each once; and the next registry steps of the whole system, whatever the other
  goroutines try, are the \<open>Close\<close> of each of those members in that order, the
  installation of the empty map, and the \<open>Unlock\<close>.
\<close>

theorem CloseAll_concurrent_snapshot:
  assumes "csteps close env (sys_init w progs) ls0 s"
    and "sched_step close t ord s = Some (LLock t, s1)"
    and "tcalls (sthreads s ! t) \<noteq> []" and "hd (tcalls (sthreads s ! t)) = CCloseAll"
    and "csteps close env s1 ls s'"
  shows "range_order (conns (sreg s)) ord
    \<and> prefix (take (length ord + 2) (filter (\<lambda>l. l \<noteq> LEnv) ls))
         (map (LClose t) ord @ [LLin t CCloseAll, LUnlock t])"
  by (rule closeAll_lock_future [OF assms])

theorem registry_deadlock_free_witness:
  "csteps log_close (\<lambda>_ _. False) (sys_init ([] :: nat list) [[CAdd (1::nat)]]) [] (sys_init ([] :: nat list) [[CAdd (1::nat)]])
   \<and> 0 < length (sthreads (sys_init ([] :: nat list) [[CAdd (1::nat)]])) \<and> tcalls (sthreads (sys_init ([] :: nat list) [[CAdd (1::nat)]]) ! 0) \<noteq> []
   \<and> (\<exists>u ord l s'. sched_step log_close u ord (sys_init ([] :: nat list) [[CAdd (1::nat)]]) = Some (l, s'))"
proof -
  have h1: "csteps log_close (\<lambda>_ _. False) (sys_init ([] :: nat list) [[CAdd (1::nat)]]) [] (sys_init ([] :: nat list) [[CAdd (1::nat)]])" by (rule csteps.refl)
  have h2: "0 < length (sthreads (sys_init ([] :: nat list) [[CAdd (1::nat)]]))" by (simp add: sys_init_def)
  have h3: "tcalls (sthreads (sys_init ([] :: nat list) [[CAdd (1::nat)]]) ! 0) \<noteq> []" by (simp add: sys_init_def)
  show ?thesis by (rule conjI [OF h1 conjI [OF h2 conjI [OF h3 registry_deadlock_free [OF h1 h2 h3]]]])
qed

theorem all_goroutines_return_witness:
  "csteps log_close (\<lambda>_ _. False) (sys_init ([] :: nat list) [[CAdd (1::nat)]]) [] (sys_init ([] :: nat list) [[CAdd (1::nat)]])
   \<and> (\<exists>ls' s'. csteps log_close (\<lambda>_ _. False) (sys_init ([] :: nat list) [[CAdd (1::nat)]]) ls' s' \<and> LEnv \<notin> set ls'
        \<and> (all_returned s'))"
proof -
  have h1: "csteps log_close (\<lambda>_ _. False) (sys_init ([] :: nat list) [[CAdd (1::nat)]]) [] (sys_init ([] :: nat list) [[CAdd (1::nat)]])" by (rule csteps.refl)
  show ?thesis by (rule conjI [OF h1 all_goroutines_return [OF h1]])
qed

theorem CloseAll_concurrent_snapshot_witness:
  "csteps log_close (\<lambda>_ _. False) (sys_init [] [[CAdd (1::nat), CCloseAll]]) [LLock 0, LLin 0 (CAdd (1::nat)), LUnlock 0] \<lparr>sreg = \<lparr>mutex = None, conns = Some [1::nat \<mapsto> True]\<rparr>, sworld = [] :: nat list, sthreads = [\<lparr>tpc = Idle, tcalls = [CCloseAll]\<rparr>]\<rparr>
   \<and> sched_step log_close 0 [1] \<lparr>sreg = \<lparr>mutex = None, conns = Some [1::nat \<mapsto> True]\<rparr>, sworld = [] :: nat list, sthreads = [\<lparr>tpc = Idle, tcalls = [CCloseAll]\<rparr>]\<rparr> = Some (LLock 0, \<lparr>sreg = \<lparr>mutex = Some 0, conns = Some [1::nat \<mapsto> True]\<rparr>, sworld = [] :: nat list, sthreads = [\<lparr>tpc = InCloseAll [1], tcalls = [CCloseAll]\<rparr>]\<rparr>)
   \<and> tcalls (sthreads \<lparr>sreg = \<lparr>mutex = None, conns = Some [1::nat \<mapsto> True]\<rparr>, sworld = [] :: nat list, sthreads = [\<lparr>tpc = Idle, tcalls = [CCloseAll]\<rparr>]\<rparr> ! 0) \<noteq> [] \<and> hd (tcalls (sthreads \<lparr>sreg = \<lparr>mutex = None, conns = Some [1::nat \<mapsto> True]\<rparr>, sworld = [] :: nat list, sthreads = [\<lparr>tpc = Idle, tcalls = [CCloseAll]\<rparr>]\<rparr> ! 0)) = CCloseAll
   \<and> csteps log_close (\<lambda>_ _. False) \<lparr>sreg = \<lparr>mutex = Some 0, conns = Some [1::nat \<mapsto> True]\<rparr>, sworld = [] :: nat list, sthreads = [\<lparr>tpc = InCloseAll [1], tcalls = [CCloseAll]\<rparr>]\<rparr> [LClose 0 (1::nat), LLin 0 CCloseAll, LUnlock 0] \<lparr>sreg = \<lparr>mutex = None, conns = Some Map.empty\<rparr>, sworld = [1::nat], sthreads = [\<lparr>tpc = Idle, tcalls = []\<rparr>]\<rparr>
   \<and> range_order (conns (sreg \<lparr>sreg = \<lparr>mutex = None, conns = Some [1::nat \<mapsto> True]\<rparr>, sworld = [] :: nat list, sthreads = [\<lparr>tpc = Idle, tcalls = [CCloseAll]\<rparr>]\<rparr>)) [1]
   \<and> prefix (take (length [1::nat] + 2) (filter (\<lambda>l. l \<noteq> LEnv) [LClose 0 (1::nat), LLin 0 CCloseAll, LUnlock 0]))
         (map (LClose 0) [1::nat] @ [LLin 0 CCloseAll, LUnlock 0])"
proof -
  have h1: "csteps log_close (\<lambda>_ _. False) (sys_init [] [[CAdd (1::nat), CCloseAll]]) [LLock 0, LLin 0 (CAdd (1::nat)), LUnlock 0] \<lparr>sreg = \<lparr>mutex = None, conns = Some [1::nat \<mapsto> True]\<rparr>, sworld = [] :: nat list, sthreads = [\<lparr>tpc = Idle, tcalls = [CCloseAll]\<rparr>]\<rparr>"
    by (rule run_sched_csteps [where sch = "[(0, []), (0, []), (0, [])]"]) (simp add: sched_eval)
  have h2: "sched_step log_close 0 [1] \<lparr>sreg = \<lparr>mutex = None, conns = Some [1::nat \<mapsto> True]\<rparr>, sworld = [] :: nat list, sthreads = [\<lparr>tpc = Idle, tcalls = [CCloseAll]\<rparr>]\<rparr> = Some (LLock 0, \<lparr>sreg = \<lparr>mutex = Some 0, conns = Some [1::nat \<mapsto> True]\<rparr>, sworld = [] :: nat list, sthreads = [\<lparr>tpc = InCloseAll [1], tcalls = [CCloseAll]\<rparr>]\<rparr>)"
    by (simp add: sched_eval)
  have h3: "tcalls (sthreads \<lparr>sreg = \<lparr>mutex = None, conns = Some [1::nat \<mapsto> True]\<rparr>, sworld = [] :: nat list, sthreads = [\<lparr>tpc = Idle, tcalls = [CCloseAll]\<rparr>]\<rparr> ! 0) \<noteq> []" by simp
  have h4: "hd (tcalls (sthreads \<lparr>sreg = \<lparr>mutex = None, conns = Some [1::nat \<mapsto> True]\<rparr>, sworld = [] :: nat list, sthreads = [\<lparr>tpc = Idle, tcalls = [CCloseAll]\<rparr>]\<rparr> ! 0)) = CCloseAll" by simp
  have h5: "csteps log_close (\<lambda>_ _. False) \<lparr>sreg = \<lparr>mutex = Some 0, conns = Some [1::nat \<mapsto> True]\<rparr>, sworld = [] :: nat list, sthreads = [\<lparr>tpc = InCloseAll [1], tcalls = [CCloseAll]\<rparr>]\<rparr> [LClose 0 (1::nat), LLin 0 CCloseAll, LUnlock 0] \<lparr>sreg = \<lparr>mutex = None, conns = Some Map.empty\<rparr>, sworld = [1::nat], sthreads = [\<lparr>tpc = Idle, tcalls = []\<rparr>]\<rparr>"
    by (rule run_sched_csteps [where sch = "[(0, []), (0, []), (0, [])]"]) (simp add: sched_eval)
  show ?thesis
    by (rule conjI [OF h1 conjI [OF h2 conjI [OF h3 conjI [OF h4 conjI [OF h5
        CloseAll_concurrent_snapshot [OF h1 h2 h3 h4 h5]]]]]])
qed

text \<open>
  C22. The mutex is used correctly: in every reachable state from the zero value, a
  goroutine holds the mutex exactly while it is inside a method. So the deferred
  \<open>Unlock\<close> always finds the mutex locked by its own goroutine (Go's fatal
  "unlock of unlocked mutex" cannot happen), and a goroutine's \<open>Lock\<close> never finds the
  mutex held by itself.
\<close>

theorem mutex_owned_by_caller:
  assumes "csteps close env (sys_init w progs) ls s" and "t < length (sthreads s)"
  shows "mutex (sreg s) = Some t \<longleftrightarrow> tpc (sthreads s ! t) \<noteq> Idle"
  using csteps_inv [OF assms(1) sys_init_inv] assms(2) by (simp add: sys_inv_def)

theorem mutex_owned_by_caller_witness:
  "csteps log_close (\<lambda>_ _. False) (sys_init [] [[CAdd (1::nat)], [CAdd 2]]) [LLock 0]
      \<lparr>sreg = \<lparr>mutex = Some 0, conns = None\<rparr>, sworld = [] :: nat list,
       sthreads = [\<lparr>tpc = InAdd 1, tcalls = [CAdd 1]\<rparr>, \<lparr>tpc = Idle, tcalls = [CAdd 2]\<rparr>]\<rparr>
   \<and> 1 < length (sthreads \<lparr>sreg = \<lparr>mutex = Some 0, conns = None\<rparr>, sworld = [] :: nat list,
       sthreads = [\<lparr>tpc = InAdd (1::nat), tcalls = [CAdd 1]\<rparr>, \<lparr>tpc = Idle, tcalls = [CAdd 2]\<rparr>]\<rparr>)
   \<and> (mutex (sreg \<lparr>sreg = \<lparr>mutex = Some 0, conns = None\<rparr>, sworld = [] :: nat list,
       sthreads = [\<lparr>tpc = InAdd (1::nat), tcalls = [CAdd 1]\<rparr>, \<lparr>tpc = Idle, tcalls = [CAdd 2]\<rparr>]\<rparr>) = Some 1
      \<longleftrightarrow> tpc (sthreads \<lparr>sreg = \<lparr>mutex = Some 0, conns = None\<rparr>, sworld = [] :: nat list,
       sthreads = [\<lparr>tpc = InAdd (1::nat), tcalls = [CAdd 1]\<rparr>, \<lparr>tpc = Idle, tcalls = [CAdd 2]\<rparr>]\<rparr> ! 1) \<noteq> Idle)"
proof -
  let ?s = "\<lparr>sreg = \<lparr>mutex = Some 0, conns = None\<rparr>, sworld = [] :: nat list,
       sthreads = [\<lparr>tpc = InAdd (1::nat), tcalls = [CAdd 1]\<rparr>, \<lparr>tpc = Idle, tcalls = [CAdd 2]\<rparr>]\<rparr>
       :: (nat, nat list) sys"
  have h1: "csteps log_close (\<lambda>_ _. False) (sys_init [] [[CAdd (1::nat)], [CAdd 2]]) [LLock 0] ?s"
    by (rule run_sched_csteps [where sch = "[(0, [])]"]) (simp add: sched_eval)
  have h2: "1 < length (sthreads ?s)" by simp
  show ?thesis by (rule conjI [OF h1 conjI [OF h2 mutex_owned_by_caller [OF h1 h2]]])
qed

end
