(* ===== verification/Conns_Methods.thy ===== *)
theory Conns_Methods
  imports Conns "HOL-Library.Monad_Syntax"
begin

text \<open>
  The registry's methods as a goroutine runs them (\<open>src/psiphon/conn.go\<close>, lines
  53--75), the mutex included: \<open>conns.mutex.Lock()\<close>, the body (theory \<open>Conns\<close>),
  and the deferred \<open>conns.mutex.Unlock()\<close>. A run of one goroutine is sequential, so a
  \<open>Lock\<close> that finds the mutex held can only find it held by that goroutine itself:
  \<open>sync.Mutex\<close> is not re-entrant and nothing will release it, so the call never
  returns, which the model writes as \<open>None\<close> (the option monad threads it through).
  Here \<open>Close\<close> may use the registry: a \<open>reg_close\<close> sees the registry and the
  world, and may block. \<open>world_only\<close> is a \<open>Close\<close> that only acts on the world, as
  \<open>Conns\<close> assumes; \<open>self_removing\<close> is the \<open>Close\<close> of section 9 of the
  specification, which calls \<open>conns.Remove(conn)\<close> on itself before closing.
\<close>

section \<open>The mutex\<close>

text \<open>\<open>Lock\<close> by goroutine \<open>t\<close>: take a free mutex, or block for ever (\<open>None\<close>).\<close>

definition Conns_Lock :: "tid \<Rightarrow> 'c Conns \<Rightarrow> 'c Conns option" where
  "Conns_Lock t s = (if mutex s = None then Some (s\<lparr>mutex := Some t\<rparr>) else None)"

text \<open>The deferred \<open>Unlock\<close>, run when the method returns.\<close>

definition Conns_Unlock :: "'c Conns \<Rightarrow> 'c Conns" where
  "Conns_Unlock s = s\<lparr>mutex := None\<rparr>"

section \<open>The methods\<close>

text \<open>A \<open>Close\<close> implementation that may call back into the registry, and may block.\<close>

type_synonym ('c, 'w) reg_close = "'c \<Rightarrow> 'c Conns \<times> 'w \<Rightarrow> ('c Conns \<times> 'w) option"

definition Add_method :: "tid \<Rightarrow> 'c \<Rightarrow> 'c Conns \<Rightarrow> 'c Conns option" where
  "Add_method t conn s = do { s1 \<leftarrow> Conns_Lock t s; Some (Conns_Unlock (Conns_Add conn s1)) }"

definition Remove_method :: "tid \<Rightarrow> 'c \<Rightarrow> 'c Conns \<Rightarrow> 'c Conns option" where
  "Remove_method t conn s = do { s1 \<leftarrow> Conns_Lock t s; Some (Conns_Unlock (Conns_Remove conn s1)) }"

text \<open>The \<open>range\<close> loop, each \<open>conn.Close()\<close> running to completion before the next.\<close>

fun closeAll_loop_m :: "('c, 'w) reg_close \<Rightarrow> 'c list \<Rightarrow> 'c Conns \<times> 'w \<Rightarrow> ('c Conns \<times> 'w) option" where
  "closeAll_loop_m close [] sw = Some sw"
| "closeAll_loop_m close (conn # cs) sw = do { sw' \<leftarrow> close conn sw; closeAll_loop_m close cs sw' }"

definition CloseAll_method ::
  "tid \<Rightarrow> ('c, 'w) reg_close \<Rightarrow> 'c list \<Rightarrow> 'c Conns \<times> 'w \<Rightarrow> ('c Conns \<times> 'w) option" where
  "CloseAll_method t close order sw = do {
     s1 \<leftarrow> Conns_Lock t (fst sw);
     (s2, w2) \<leftarrow> closeAll_loop_m close order (s1, snd sw);
     Some (Conns_Unlock (s2\<lparr>conns := Some Map.empty\<rparr>), w2) }"

text \<open>A sequence of calls made one after the other by goroutine \<open>t\<close>.\<close>

fun method_op :: "tid \<Rightarrow> ('c, 'w) reg_close \<Rightarrow> 'c conns_op \<Rightarrow> 'c Conns \<times> 'w \<Rightarrow> ('c Conns \<times> 'w) option" where
  "method_op t close (OpAdd c) (s, w) = map_option (\<lambda>s'. (s', w)) (Add_method t c s)"
| "method_op t close (OpRemove c) (s, w) = map_option (\<lambda>s'. (s', w)) (Remove_method t c s)"
| "method_op t close (OpCloseAll order) sw = CloseAll_method t close order sw"

fun methods_run :: "tid \<Rightarrow> ('c, 'w) reg_close \<Rightarrow> 'c conns_op list \<Rightarrow> 'c Conns \<times> 'w \<Rightarrow> ('c Conns \<times> 'w) option" where
  "methods_run t close [] sw = Some sw"
| "methods_run t close (op # ops) sw = do { sw' \<leftarrow> method_op t close op sw; methods_run t close ops sw' }"

section \<open>Close implementations\<close>

text \<open>A \<open>Close\<close> that acts on the world only (the implementations of the repository).\<close>

definition world_only :: "('c, 'w, 'e) close_method \<Rightarrow> ('c, 'w) reg_close" where
  "world_only close conn sw = Some (fst sw, snd (close conn (snd sw)))"

text \<open>
  A \<open>Close\<close> that first removes its connection from the registry, on the calling
  goroutine \<open>t\<close>, then closes it.
\<close>

definition self_removing :: "tid \<Rightarrow> ('c, 'w, 'e) close_method \<Rightarrow> ('c, 'w) reg_close" where
  "self_removing t close conn sw =
     do { s' \<leftarrow> Remove_method t conn (fst sw); Some (s', snd (close conn (snd sw))) }"

section \<open>Lemmas\<close>

lemma Conns_Lock_free [simp]: "mutex s = None \<Longrightarrow> Conns_Lock t s = Some (s\<lparr>mutex := Some t\<rparr>)"
  and Conns_Lock_held [simp]: "mutex s \<noteq> None \<Longrightarrow> Conns_Lock t s = None"
  by (simp_all add: Conns_Lock_def)

lemma Conns_Unlock_relock [simp]: "mutex s = None \<Longrightarrow> Conns_Unlock (s\<lparr>mutex := x\<rparr>) = s"
  by (simp add: Conns_Unlock_def)

lemma Conns_Unlock_mutex [simp]: "mutex (Conns_Unlock s) = None"
  by (simp add: Conns_Unlock_def)

lemma Add_method_free: "mutex s = None \<Longrightarrow> Add_method t c s = Some (Conns_Add c s)"
  by (simp add: Add_method_def Conns_Add_mutex_update)

lemma Remove_method_free: "mutex s = None \<Longrightarrow> Remove_method t c s = Some (Conns_Remove c s)"
  by (simp add: Remove_method_def Conns_Remove_mutex_update)

lemma Remove_method_held: "mutex s \<noteq> None \<Longrightarrow> Remove_method t c s = None"
  by (simp add: Remove_method_def)

lemma closeAll_loop_m_world_only:
  "closeAll_loop_m (world_only close) cs (s, w) = Some (s, closeAll_loop close cs w)"
  by (induction cs arbitrary: w) (simp_all add: world_only_def)

lemma CloseAll_method_world_only:
  "mutex s = None \<Longrightarrow> CloseAll_method t (world_only close) order (s, w) = Some (Conns_CloseAll close order (s, w))"
  by (simp add: CloseAll_method_def closeAll_loop_m_world_only Conns_CloseAll_def Conns_Unlock_def)

lemma method_op_world_only:
  "mutex (fst sw) = None \<Longrightarrow> method_op t (world_only close) op sw = Some (Conns_op close op sw)"
  by (cases sw; cases op) (simp_all add: Add_method_free Remove_method_free CloseAll_method_world_only)

text \<open>On an empty map, the self-removing \<open>Close\<close> finds nothing to remove.\<close>

lemma methods_run_world_only_aux:
  "mutex s = None \<Longrightarrow> methods_run t (world_only close) ops (s, w) = Some (Conns_run close ops (s, w))"
proof (induction ops arbitrary: s w)
  case Nil
  then show ?case by simp
next
  case (Cons op ops)
  obtain s' w' where r: "Conns_op close op (s, w) = (s', w')" by fastforce
  have "mutex s' = None" using Conns_op_mutex [of close op "(s, w)"] r Cons.prems by simp
  with Cons.IH [of s' w'] r Cons.prems show ?case by (simp add: method_op_world_only)
qed

section \<open>Properties of the methods\<close>

text \<open>
  C16. The methods with their mutex, called one after the other from an unlocked
  registry with a \<open>Close\<close> that does not use the registry, never block, and compute
  exactly what the bodies of theory \<open>Conns\<close> compute: the mutex is free again after
  each call, so the body-level model is the code's sequential behaviour.
\<close>

theorem methods_run_equiv:
  assumes "mutex s = None"
  shows "methods_run t (world_only close) ops (s, w) = Some (Conns_run close ops (s, w))"
  using methods_run_world_only_aux [OF assms] .

theorem methods_run_equiv_witness:
  "mutex (Conns_zero :: nat Conns) = None
   \<and> methods_run 0 (world_only log_close) [OpAdd (1::nat), OpAdd 2, OpRemove 1, OpCloseAll [2]] (Conns_zero, [])
     = Some (Conns_run log_close [OpAdd (1::nat), OpAdd 2, OpRemove 1, OpCloseAll [2]] (Conns_zero, []))"
proof -
  have h: "mutex (Conns_zero :: nat Conns) = None" by (simp add: Conns_zero_def)
  show ?thesis by (rule conjI [OF h methods_run_equiv [OF h]])
qed

text \<open>
  C17. The hazard of section 9 of the specification, in the code as written: if a
  connection's \<open>Close\<close> calls \<open>conns.Remove\<close> on itself, \<open>CloseAll\<close> on an unlocked
  registry never returns exactly when the registry has a member, for every iteration
  order: the first \<open>Close\<close> blocks in \<open>Lock\<close> on the mutex its own goroutine holds,
  and the deferred \<open>Unlock\<close> never runs.
\<close>

theorem CloseAll_self_removing_deadlock:
  assumes "mutex s = None" and "range_order (conns s) order"
  shows "CloseAll_method t (self_removing u close) order (s, w) = None \<longleftrightarrow> members s \<noteq> {}"
proof (cases order)
  case Nil
  then have "members s = {}" using assms(2) by (simp add: range_order_def members_def)
  with Nil assms(1) show ?thesis by (simp add: CloseAll_method_def)
next
  case (Cons c cs)
  then have "members s \<noteq> {}" using assms(2) by (auto simp: range_order_def members_def)
  moreover have "CloseAll_method t (self_removing u close) order (s, w) = None"
    using Cons assms(1) by (simp add: CloseAll_method_def self_removing_def Remove_method_held)
  ultimately show ?thesis by simp
qed

theorem CloseAll_self_removing_deadlock_witness:
  "mutex (Conns_Add (1::nat) Conns_zero) = None
   \<and> range_order (conns (Conns_Add (1::nat) Conns_zero)) [1]
   \<and> CloseAll_method 0 (self_removing 0 log_close) [1] (Conns_Add (1::nat) Conns_zero, []) = None"
proof -
  have h1: "mutex (Conns_Add (1::nat) Conns_zero) = None" by (simp add: Conns_zero_def)
  have h2: "range_order (conns (Conns_Add (1::nat) Conns_zero)) [1]"
    by (simp add: range_order_def Conns_zero_def)
  have "members (Conns_Add (1::nat) Conns_zero) \<noteq> {}" by simp
  with CloseAll_self_removing_deadlock [OF h1 h2, of 0 0 log_close "[]"] h1 h2 show ?thesis by blast
qed

end
