(* ===== verification/Conns_Refinement.thy ===== *)
theory Conns_Refinement
  imports Conns_Concurrent
begin

text \<open>
  The interleaved registry (theory \<open>Conns_Concurrent\<close>) refines the sequential one
  (theory \<open>Conns\<close>), the effects of \<open>Close\<close> included. A trace of the concurrent
  system names, at each linearisation point, the call that took effect, and each
  \<open>conn.Close()\<close> of a \<open>CloseAll\<close> loop; \<open>trace_ops\<close> reads it as a sequence of
  sequential calls, a \<open>CloseAll\<close> carrying the connections it closed, in the order it
  closed them. \<open>replay\<close> is the meaning of a trace label by label; \<open>open_closes\<close> are
  the \<open>Close\<close> calls of a \<open>CloseAll\<close> whose loop has not finished yet.
\<close>

section \<open>Traces read as sequential calls\<close>

fun trace_ops :: "'c list \<Rightarrow> 'c label list \<Rightarrow> 'c conns_op list" where
  "trace_ops acc [] = []"
| "trace_ops acc (LClose t c # ls) = trace_ops (acc @ [c]) ls"
| "trace_ops acc (LLin t (CAdd c) # ls) = OpAdd c # trace_ops acc ls"
| "trace_ops acc (LLin t (CRemove c) # ls) = OpRemove c # trace_ops acc ls"
| "trace_ops acc (LLin t CCloseAll # ls) = OpCloseAll acc # trace_ops [] ls"
| "trace_ops acc (LLock t # ls) = trace_ops acc ls"
| "trace_ops acc (LUnlock t # ls) = trace_ops acc ls"
| "trace_ops acc (LEnv # ls) = trace_ops acc ls"

fun open_closes :: "'c list \<Rightarrow> 'c label list \<Rightarrow> 'c list" where
  "open_closes acc [] = acc"
| "open_closes acc (LClose t c # ls) = open_closes (acc @ [c]) ls"
| "open_closes acc (LLin t CCloseAll # ls) = open_closes [] ls"
| "open_closes acc (_ # ls) = open_closes acc ls"

fun replay :: "('c, 'w, 'e) close_method \<Rightarrow> 'c label list \<Rightarrow> 'c Conns \<times> 'w \<Rightarrow> 'c Conns \<times> 'w" where
  "replay close [] rw = rw"
| "replay close (LClose t c # ls) (r, w) = replay close ls (r, snd (close c w))"
| "replay close (LLin t (CAdd c) # ls) (r, w) = replay close ls (Conns_Add c r, w)"
| "replay close (LLin t (CRemove c) # ls) (r, w) = replay close ls (Conns_Remove c r, w)"
| "replay close (LLin t CCloseAll # ls) (r, w) = replay close ls (r\<lparr>conns := Some Map.empty\<rparr>, w)"
| "replay close (LLock t # ls) rw = replay close ls rw"
| "replay close (LUnlock t # ls) rw = replay close ls rw"
| "replay close (LEnv # ls) rw = replay close ls rw"

text \<open>The registry with its mutex released: what the sequential model sees.\<close>

definition unlocked :: "'c Conns \<Rightarrow> 'c Conns" where
  "unlocked r = r\<lparr>mutex := None\<rparr>"

text \<open>Some goroutine holds the mutex inside the loop of \<open>CloseAll\<close>.\<close>

definition in_closeAll :: "('c, 'w) sys \<Rightarrow> bool" where
  "in_closeAll s \<longleftrightarrow> (\<exists>t ks. mutex (sreg s) = Some t \<and> t < length (sthreads s) \<and> tpc (sthreads s ! t) = InCloseAll ks)"

text \<open>The call a sequential operation is, and sequences whose iteration orders Go could choose.\<close>

fun op_call :: "'c conns_op \<Rightarrow> 'c call" where
  "op_call (OpAdd c) = CAdd c"
| "op_call (OpRemove c) = CRemove c"
| "op_call (OpCloseAll order) = CCloseAll"

fun ops_admissible :: "('c, 'w, 'e) close_method \<Rightarrow> 'c conns_op list \<Rightarrow> 'c Conns \<times> 'w \<Rightarrow> bool" where
  "ops_admissible close [] sw = True"
| "ops_admissible close (op # ops) sw =
     ((case op of OpCloseAll order \<Rightarrow> range_order (conns (fst sw)) order | _ \<Rightarrow> True)
      \<and> ops_admissible close ops (Conns_op close op sw))"

text \<open>A system with a single goroutine.\<close>

definition solo :: "'c Conns \<Rightarrow> 'w \<Rightarrow> 'c pc \<Rightarrow> 'c call list \<Rightarrow> ('c, 'w) sys" where
  "solo r w p cs = \<lparr>sreg = r, sworld = w, sthreads = [\<lparr>tpc = p, tcalls = cs\<rparr>]\<rparr>"

section \<open>Lemmas\<close>

lemma closeAll_loop_snoc: "closeAll_loop close (acc @ [c]) w = snd (close c (closeAll_loop close acc w))"
  by (induction acc arbitrary: w) simp_all

text \<open>
  Registry calls and \<open>Close\<close> calls act on disjoint parts of the state, so replaying a
  trace label by label is running its sequential calls, each \<open>CloseAll\<close> doing its
  closes at once, followed by the closes of a loop still running.
\<close>

lemma replay_trace_ops:
  "replay close ls (r, closeAll_loop close acc w) =
     (case Conns_run close (trace_ops acc ls) (r, w) of
        (r', w') \<Rightarrow> (r', closeAll_loop close (open_closes acc ls) w'))"
proof (induction ls arbitrary: r acc w)
  case Nil
  then show ?case by simp
next
  case (Cons l ls)
  show ?case
  proof (cases l)
    case (LClose t c)
    then show ?thesis using Cons.IH [of r "acc @ [c]" w] by (simp add: closeAll_loop_snoc)
  next
    case (LLin t op)
    show ?thesis
    proof (cases op)
      case (CAdd c)
      then show ?thesis using LLin Cons.IH [of "Conns_Add c r" acc w] by simp
    next
      case (CRemove c)
      then show ?thesis using LLin Cons.IH [of "Conns_Remove c r" acc w] by simp
    next
      case CCloseAll
      then show ?thesis
        using LLin Cons.IH [of "r\<lparr>conns := Some Map.empty\<rparr>" "[]" "closeAll_loop close acc w"]
        by (simp add: closeAll_loop_fold)
    qed
  qed (use Cons.IH in simp_all)
qed

lemma unlocked_simps [simp]:
  "unlocked (r\<lparr>mutex := x\<rparr>) = unlocked r"
  "unlocked (Conns_Add c r) = Conns_Add c (unlocked r)"
  "unlocked (Conns_Remove c r) = Conns_Remove c (unlocked r)"
  "unlocked (r\<lparr>conns := g\<rparr>) = (unlocked r)\<lparr>conns := g\<rparr>"
  by (simp_all add: unlocked_def Conns_Add_mutex_update Conns_Remove_mutex_update)

lemma unlocked_free: "mutex r = None \<Longrightarrow> unlocked r = r"
  by (simp add: unlocked_def)

lemma pc_step_replay:
  "pc_step close t p s = (l, s') \<Longrightarrow> p \<noteq> Idle \<Longrightarrow>
     (unlocked (sreg s'), sworld s') = replay close [l] (unlocked (sreg s), sworld s)"
  by (induction close t p s rule: pc_step.induct) auto

lemma sched_step_replay:
  assumes "sched_step close t ord s = Some (l, s')"
  shows "(unlocked (sreg s'), sworld s') = replay close [l] (unlocked (sreg s), sworld s)"
proof (cases "tpc (sthreads s ! t) = Idle")
  case True
  with assms obtain op where "l = LLock t"
    and "s' = put_pc t (call_start op ord) (s\<lparr>sreg := (sreg s)\<lparr>mutex := Some t\<rparr>\<rparr>)"
    by (auto simp: sched_step_Some lock_step_Some)
  then show ?thesis by simp
next
  case False
  with assms have "pc_step close t (tpc (sthreads s ! t)) s = (l, s')" by (simp add: sched_step_Some)
  then show ?thesis using False by (rule pc_step_replay)
qed

lemma replay_Cons: "replay close (l # ls) rw = replay close ls (replay close [l] rw)"
proof (cases l)
  case (LLin t op)
  then show ?thesis by (cases op; cases rw) simp_all
qed (cases rw; simp)+

lemma csteps_replay:
  "csteps close env s ls s' \<Longrightarrow> LEnv \<notin> set ls \<Longrightarrow>
     (unlocked (sreg s'), sworld s') = replay close ls (unlocked (sreg s), sworld s)"
proof (induction rule: csteps.induct)
  case (refl s)
  then show ?case by simp
next
  case (step s l s1 ls s')
  from step.hyps(1) step.prems have one: "(unlocked (sreg s1), sworld s1) = replay close [l] (unlocked (sreg s), sworld s)"
    by (cases rule: cstep.cases) (auto dest: sched_step_replay)
  from step.IH step.prems one show ?case by (metis list.set_intros(2) replay_Cons)
qed


lemma open_closes_Cons: "open_closes acc (l # ls) = open_closes (open_closes acc [l]) ls"
proof (cases l)
  case (LLin t op)
  then show ?thesis by (cases op) simp_all
qed simp_all

text \<open>Only a \<open>CloseAll\<close> in its loop leaves \<open>Close\<close> calls without their linearisation point.\<close>

lemma sched_step_open_closes:
  assumes inv: "sys_inv s" and st: "sched_step close u ord s = Some (l, s')"
    and acc: "acc \<noteq> [] \<longrightarrow> in_closeAll s"
  shows "open_closes acc [l] \<noteq> [] \<longrightarrow> in_closeAll s'"
proof (cases "tpc (sthreads s ! u) = Idle")
  case True
  with st obtain op where l: "l = LLock u" and free: "mutex (sreg s) = None"
    by (auto simp: sched_step_Some lock_step_Some)
  from free acc have "acc = []" by (auto simp: in_closeAll_def)
  with l show ?thesis by simp
next
  case busy: False
  from st have u: "u < length (sthreads s)" by (simp add: sched_step_Some)
  have mu: "mutex (sreg s) = Some u" by (rule sys_inv_holder [OF inv u busy])
  from st busy have pst: "pc_step close u (tpc (sthreads s ! u)) s = (l, s')" by (simp add: sched_step_Some)
  show ?thesis
  proof (cases "tpc (sthreads s ! u)")
    case (InCloseAll ks)
    show ?thesis
    proof (cases ks)
      case Nil
      with InCloseAll pst show ?thesis by auto
    next
      case (Cons c cs)
      with InCloseAll pst have "s' = put_pc u (InCloseAll cs) (s\<lparr>sworld := snd (close c (sworld s))\<rparr>)"
        by simp
      then show ?thesis using u mu by (auto simp: in_closeAll_def put_pc_nth)
    qed
  next
    case Idle
    with busy show ?thesis by simp
  next
    case (InAdd c)
    with pst have "l = LLin u (CAdd c)" by simp
    moreover have "acc = []" using acc mu InAdd by (auto simp: in_closeAll_def)
    ultimately show ?thesis by simp
  next
    case (InRemove c)
    with pst have "l = LLin u (CRemove c)" by simp
    moreover have "acc = []" using acc mu InRemove by (auto simp: in_closeAll_def)
    ultimately show ?thesis by simp
  next
    case Unlocking
    with pst have "l = LUnlock u" by simp
    moreover have "acc = []" using acc mu Unlocking by (auto simp: in_closeAll_def)
    ultimately show ?thesis by simp
  qed
qed

lemma csteps_open_closes:
  "csteps close env s ls s' \<Longrightarrow> sys_inv s \<Longrightarrow> (acc \<noteq> [] \<longrightarrow> in_closeAll s) \<Longrightarrow>
     open_closes acc ls \<noteq> [] \<longrightarrow> in_closeAll s'"
proof (induction arbitrary: acc rule: csteps.induct)
  case (refl s)
  then show ?case by simp
next
  case (step s l s1 ls s')
  have inv1: "sys_inv s1" by (rule cstep_inv [OF step.hyps(1) step.prems(1)])
  have "open_closes acc [l] \<noteq> [] \<longrightarrow> in_closeAll s1"
    using step.hyps(1)
  proof (cases rule: cstep.cases)
    case (thread u ord)
    then show ?thesis using sched_step_open_closes [OF step.prems(1)] step.prems(2) by blast
  next
    case (world w')
    then show ?thesis using step.prems(2) by (simp add: in_closeAll_def)
  qed
  from step.IH [OF inv1 this] show ?case by (simp add: open_closes_Cons [of acc l ls])
qed


lemma csteps_append:
  "csteps close env s ls1 s1 \<Longrightarrow> csteps close env s1 ls2 s2 \<Longrightarrow> csteps close env s (ls1 @ ls2) s2"
  by (induction rule: csteps.induct) (auto intro: csteps.step)

lemma csteps_one: "sched_step close t ord s = Some (l, s') \<Longrightarrow> csteps close env s [l] s'"
  by (rule csteps.step [OF cstep.thread csteps.refl])

lemma trace_ops_append:
  "trace_ops acc (ls1 @ ls2) = trace_ops acc ls1 @ trace_ops (open_closes acc ls1) ls2"
  by (induction acc ls1 rule: trace_ops.induct) simp_all

lemma trace_ops_closes: "trace_ops acc (map (LClose t) ks) = []"
  and open_closes_closes: "open_closes acc (map (LClose t) ks) = acc @ ks"
  by (induction ks arbitrary: acc) simp_all

lemma open_closes_append: "open_closes acc (ls1 @ ls2) = open_closes (open_closes acc ls1) ls2"
  by (induction acc ls1 rule: open_closes.induct) simp_all

text \<open>A goroutine alone runs the loop of \<open>CloseAll\<close> through.\<close>

lemma solo_loop:
  "csteps close env (solo r w (InCloseAll ks) cs) (map (LClose 0) ks) (solo r (closeAll_loop close ks w) (InCloseAll []) cs)"
proof (induction ks arbitrary: w)
  case Nil
  then show ?case by (simp add: csteps.refl)
next
  case (Cons k ks)
  have "sched_step close 0 [] (solo r w (InCloseAll (k # ks)) cs)
      = Some (LClose 0 k, solo r (snd (close k w)) (InCloseAll ks) cs)"
    by (simp add: sched_step_def solo_def put_pc_def)
  from csteps.step [OF cstep.thread [OF this] Cons.IH [of "snd (close k w)"]] show ?case by simp
qed

lemma relock_free: "mutex r = None \<Longrightarrow> r\<lparr>mutex := x, mutex := None\<rparr> = r"
  by (simp add: unlocked_free [unfolded unlocked_def])

text \<open>A goroutine alone makes one call, on a free mutex, in an admissible order.\<close>

lemma solo_op:
  assumes free: "mutex r = None"
    and adm: "case op of OpCloseAll order \<Rightarrow> range_order (conns r) order | _ \<Rightarrow> True"
  shows "\<exists>ls. csteps close env (solo r w Idle (op_call op # cs)) ls
      (solo (fst (Conns_op close op (r, w))) (snd (Conns_op close op (r, w))) Idle cs)
    \<and> trace_ops [] ls = [op] \<and> open_closes [] ls = []"
proof (cases op)
  case (OpAdd c)
  have "run_sched close [(0, []), (0, []), (0, [])] (solo r w Idle (CAdd c # cs))
      = Some ([LLock 0, LLin 0 (CAdd c), LUnlock 0], solo (Conns_Add c r) w Idle cs)"
    using free by (simp add: sched_step_def lock_step_def put_pc_def unlock_step_def solo_def
        Conns_Add_mutex_update relock_free)
  from run_sched_csteps [OF this] OpAdd show ?thesis by fastforce
next
  case (OpRemove c)
  have "run_sched close [(0, []), (0, []), (0, [])] (solo r w Idle (CRemove c # cs))
      = Some ([LLock 0, LLin 0 (CRemove c), LUnlock 0], solo (Conns_Remove c r) w Idle cs)"
    using free by (simp add: sched_step_def lock_step_def put_pc_def unlock_step_def solo_def
        Conns_Remove_mutex_update relock_free)
  from run_sched_csteps [OF this] OpRemove show ?thesis by fastforce
next
  case (OpCloseAll ord)
  let ?r1 = "r\<lparr>mutex := Some 0\<rparr>"
  have ord: "range_order (conns r) ord" using adm OpCloseAll by simp
  have lock: "sched_step close 0 ord (solo r w Idle (CCloseAll # cs))
      = Some (LLock 0, solo ?r1 w (InCloseAll ord) (CCloseAll # cs))"
    using free ord by (simp add: sched_step_def lock_step_def put_pc_def solo_def)
  have fin: "run_sched close [(0, []), (0, [])] (solo ?r1 (closeAll_loop close ord w) (InCloseAll []) (CCloseAll # cs))
      = Some ([LLin 0 CCloseAll, LUnlock 0], solo (r\<lparr>conns := Some Map.empty\<rparr>) (closeAll_loop close ord w) Idle cs)"
    using free by (simp add: sched_step_def put_pc_def unlock_step_def solo_def)
  have "csteps close env (solo r w Idle (CCloseAll # cs))
      ([LLock 0] @ map (LClose 0) ord @ [LLin 0 CCloseAll, LUnlock 0])
      (solo (r\<lparr>conns := Some Map.empty\<rparr>) (closeAll_loop close ord w) Idle cs)"
    by (rule csteps_append [OF csteps_one [OF lock] csteps_append [OF solo_loop run_sched_csteps [OF fin]]])
  moreover have "trace_ops [] ([LLock 0] @ map (LClose 0) ord @ [LLin 0 CCloseAll, LUnlock (0::nat)]) = [OpCloseAll ord]"
    "open_closes [] ([LLock 0] @ map (LClose 0) ord @ [LLin 0 CCloseAll, LUnlock (0::nat)]) = []"
    by (simp_all add: trace_ops_append open_closes_append trace_ops_closes open_closes_closes)
  ultimately show ?thesis using OpCloseAll by (fastforce simp: closeAll_loop_fold)
qed

lemma solo_ops:
  "mutex r = None \<Longrightarrow> ops_admissible close ops (r, w) \<Longrightarrow>
   \<exists>ls. csteps close env (solo r w Idle (map op_call ops)) ls
      (solo (fst (Conns_run close ops (r, w))) (snd (Conns_run close ops (r, w))) Idle [])
    \<and> trace_ops [] ls = ops"
proof (induction ops arbitrary: r w)
  case Nil
  show ?case by (rule exI [of _ "[]"]) (simp add: csteps.refl)
next
  case (Cons op ops)
  obtain r1 w1 where rw1: "Conns_op close op (r, w) = (r1, w1)" by fastforce
  have adm: "case op of OpCloseAll order \<Rightarrow> range_order (conns r) order | _ \<Rightarrow> True"
    using Cons.prems(2) by (cases op) simp_all
  from solo_op [OF Cons.prems(1) adm, of close env w "map op_call ops"] rw1 obtain ls1 where
    c1: "csteps close env (solo r w Idle (op_call op # map op_call ops)) ls1 (solo r1 w1 Idle (map op_call ops))"
    and t1: "trace_ops [] ls1 = [op]" and o1: "open_closes [] ls1 = []" by auto
  have m1: "mutex r1 = None" using Conns_op_mutex [of close op "(r, w)"] rw1 Cons.prems(1) by simp
  have a1: "ops_admissible close ops (r1, w1)" using Cons.prems(2) rw1 by simp
  from Cons.IH [OF m1 a1] obtain ls2 where
    c2: "csteps close env (solo r1 w1 Idle (map op_call ops)) ls2
      (solo (fst (Conns_run close ops (r1, w1))) (snd (Conns_run close ops (r1, w1))) Idle [])"
    and t2: "trace_ops [] ls2 = ops" by blast
  have "csteps close env (solo r w Idle (map op_call (op # ops))) (ls1 @ ls2)
      (solo (fst (Conns_run close (op # ops) (r, w))) (snd (Conns_run close (op # ops) (r, w))) Idle [])"
    using csteps_append [OF c1 c2] rw1 by simp
  moreover have "trace_ops [] (ls1 @ ls2) = op # ops" using t1 t2 o1 by (simp add: trace_ops_append)
  ultimately show ?case by blast
qed

section \<open>Refinement\<close>

text \<open>
  C20. The interleaved registry refines the sequential one, \<open>Close\<close> calls included:
  in every run from the zero-value registry without other goroutines acting on the
  connections, whenever the mutex is free, the registry and the connections are exactly
  what the sequential calls read off the trace compute from the zero value, each
  \<open>CloseAll\<close> closing the connections its loop closed, in that order.
\<close>

theorem concurrent_refines_sequential:
  assumes "csteps close env (sys_init w progs) ls s" and "LEnv \<notin> set ls"
    and "mutex (sreg s) = None"
  shows "(sreg s, sworld s) = Conns_run close (trace_ops [] ls) (Conns_zero, w)"
proof -
  have "open_closes [] ls \<noteq> [] \<longrightarrow> in_closeAll s"
    using csteps_open_closes [OF assms(1) sys_init_inv, of "[]"] by simp
  then have oc: "open_closes [] ls = []" using assms(3) by (auto simp: in_closeAll_def)
  have "(unlocked (sreg s), sworld s) = replay close ls (unlocked Conns_zero, w)"
    using csteps_replay [OF assms(1,2)] by (simp add: sys_init_def)
  also have "\<dots> = replay close ls (Conns_zero, w)"
    by (simp add: unlocked_free Conns_zero_def)
  also have "\<dots> = Conns_run close (trace_ops [] ls) (Conns_zero, w)"
    using replay_trace_ops [of close ls Conns_zero "[]" w] oc by (simp add: case_prod_beta)
  finally show ?thesis using assms(3) by (simp add: unlocked_free)
qed


theorem concurrent_refines_sequential_witness:
  "csteps log_close (\<lambda>_ _. False) (sys_init ([] :: nat list) [[CAdd (1::nat)], [CCloseAll]]) [LLock 0, LLin 0 (CAdd (1::nat)), LUnlock 0, LLock 1, LClose 1 1, LLin 1 CCloseAll, LUnlock 1] \<lparr>sreg = \<lparr>mutex = None, conns = Some (Map.empty :: nat \<rightharpoonup> bool)\<rparr>, sworld = [1::nat], sthreads = [\<lparr>tpc = Idle, tcalls = []\<rparr>, \<lparr>tpc = Idle, tcalls = []\<rparr>]\<rparr>
   \<and> LEnv \<notin> set [LLock 0, LLin 0 (CAdd (1::nat)), LUnlock 0, LLock 1, LClose 1 1, LLin 1 CCloseAll, LUnlock 1]
   \<and> mutex (sreg \<lparr>sreg = \<lparr>mutex = None, conns = Some (Map.empty :: nat \<rightharpoonup> bool)\<rparr>, sworld = [1::nat], sthreads = [\<lparr>tpc = Idle, tcalls = []\<rparr>, \<lparr>tpc = Idle, tcalls = []\<rparr>]\<rparr>) = None
   \<and> (sreg \<lparr>sreg = \<lparr>mutex = None, conns = Some (Map.empty :: nat \<rightharpoonup> bool)\<rparr>, sworld = [1::nat], sthreads = [\<lparr>tpc = Idle, tcalls = []\<rparr>, \<lparr>tpc = Idle, tcalls = []\<rparr>]\<rparr>, sworld \<lparr>sreg = \<lparr>mutex = None, conns = Some (Map.empty :: nat \<rightharpoonup> bool)\<rparr>, sworld = [1::nat], sthreads = [\<lparr>tpc = Idle, tcalls = []\<rparr>, \<lparr>tpc = Idle, tcalls = []\<rparr>]\<rparr>) = Conns_run log_close (trace_ops [] [LLock 0, LLin 0 (CAdd (1::nat)), LUnlock 0, LLock 1, LClose 1 1, LLin 1 CCloseAll, LUnlock 1]) (Conns_zero, [])"
proof -
  have h1: "csteps log_close (\<lambda>_ _. False) (sys_init ([] :: nat list) [[CAdd (1::nat)], [CCloseAll]]) [LLock 0, LLin 0 (CAdd (1::nat)), LUnlock 0, LLock 1, LClose 1 1, LLin 1 CCloseAll, LUnlock 1] \<lparr>sreg = \<lparr>mutex = None, conns = Some (Map.empty :: nat \<rightharpoonup> bool)\<rparr>, sworld = [1::nat], sthreads = [\<lparr>tpc = Idle, tcalls = []\<rparr>, \<lparr>tpc = Idle, tcalls = []\<rparr>]\<rparr>"
    by (rule run_sched_csteps [where sch = "[(0, []), (0, []), (0, []), (1, [1]), (1, []), (1, []), (1, [])]"])
      (simp add: sched_eval)
  have h2: "LEnv \<notin> set [LLock 0, LLin 0 (CAdd (1::nat)), LUnlock 0, LLock 1, LClose 1 1, LLin 1 CCloseAll, LUnlock 1]" by simp
  have h3: "mutex (sreg \<lparr>sreg = \<lparr>mutex = None, conns = Some (Map.empty :: nat \<rightharpoonup> bool)\<rparr>, sworld = [1::nat], sthreads = [\<lparr>tpc = Idle, tcalls = []\<rparr>, \<lparr>tpc = Idle, tcalls = []\<rparr>]\<rparr>) = None" by simp
  show ?thesis by (rule conjI [OF h1 conjI [OF h2 conjI [OF h3 concurrent_refines_sequential [OF h1 h2 h3]]]])
qed


text \<open>
  C21. Conversely, the interleaved model has every behaviour of the sequential one: for
  every sequence of calls whose \<open>CloseAll\<close> iteration orders are ones Go may choose, a
  goroutine making these calls alone on a zero-value registry has a run in which all its
  calls return, whose trace reads back as exactly these calls, and which ends in the
  state the sequential model computes.
\<close>

theorem sequential_runs_realised:
  assumes "ops_admissible close ops (Conns_zero, w)"
  shows "\<exists>ls s. csteps close env (sys_init w [map op_call ops]) ls s \<and> all_returned s
    \<and> trace_ops [] ls = ops \<and> (sreg s, sworld s) = Conns_run close ops (Conns_zero, w)"
proof -
  from solo_ops [of Conns_zero close ops w env] assms obtain ls where
    c: "csteps close env (solo Conns_zero w Idle (map op_call ops)) ls
      (solo (fst (Conns_run close ops (Conns_zero, w))) (snd (Conns_run close ops (Conns_zero, w))) Idle [])"
    and t: "trace_ops [] ls = ops" by (auto simp: Conns_zero_def)
  let ?s = "solo (fst (Conns_run close ops (Conns_zero, w))) (snd (Conns_run close ops (Conns_zero, w))) Idle []"
  have eq: "sys_init w [map op_call ops] = solo Conns_zero w Idle (map op_call ops)"
    by (simp add: sys_init_def solo_def)
  show ?thesis
  proof (rule exI [of _ ls], rule exI [of _ ?s], intro conjI)
    show "csteps close env (sys_init w [map op_call ops]) ls ?s" using c by (simp only: eq)
    show "all_returned ?s" by (simp add: solo_def all_returned_def)
    show "trace_ops [] ls = ops" by (rule t)
    show "(sreg ?s, sworld ?s) = Conns_run close ops (Conns_zero, w)" by (simp add: solo_def)
  qed
qed

theorem sequential_runs_realised_witness:
  "ops_admissible log_close [OpAdd (1::nat), OpAdd 2, OpCloseAll [2, 1]] (Conns_zero, [])
   \<and> (\<exists>ls s. csteps log_close (\<lambda>_ _. False) (sys_init [] [map op_call [OpAdd (1::nat), OpAdd 2, OpCloseAll [2, 1]]]) ls s
        \<and> all_returned s \<and> trace_ops [] ls = [OpAdd (1::nat), OpAdd 2, OpCloseAll [2, 1]]
        \<and> (sreg s, sworld s) = Conns_run log_close [OpAdd (1::nat), OpAdd 2, OpCloseAll [2, 1]] (Conns_zero, []))"
proof -
  have h: "ops_admissible log_close [OpAdd (1::nat), OpAdd 2, OpCloseAll [2, 1]] (Conns_zero, [])"
    by (auto simp: Conns_zero_def range_order_def)
  show ?thesis by (rule conjI [OF h sequential_runs_realised [OF h]])
qed

end
