(* ===== verification/Conns_Reentrant.thy ===== *)
theory Conns_Reentrant
  imports Conns_Concurrent
begin

text \<open>
  The interleaved registry when some connections' \<open>Close\<close> re-enters it, as section 9
  of the specification warns: \<open>reent c\<close> says that \<open>c.Close()\<close> first calls
  \<open>conns.Remove(c)\<close> on the same registry, then closes. Nothing between the start of
  \<open>c.Close()\<close> and the \<open>Lock\<close> of that \<open>Remove\<close> touches shared state, so the step of
  \<open>CloseAll\<close>'s loop that closes \<open>c\<close> can only be taken when that \<open>Lock\<close> succeeds:
  on a free mutex, the nested \<open>Remove\<close> runs and releases it, and the connection is
  closed. Every other step is that of theory \<open>Conns_Concurrent\<close>.
\<close>

section \<open>Steps with a re-entrant Close\<close>

definition rsched_step ::
  "('c \<Rightarrow> bool) \<Rightarrow> ('c, 'w, 'e) close_method \<Rightarrow> tid \<Rightarrow> 'c list \<Rightarrow> ('c, 'w) sys \<Rightarrow> ('c label \<times> ('c, 'w) sys) option" where
  "rsched_step reent close t ord s =
     (if t < length (sthreads s)
      then (case tpc (sthreads s ! t) of
              InCloseAll (c # cs) \<Rightarrow>
                if reent c
                then (if mutex (sreg s) = None
                      then Some (LClose t c, put_pc t (InCloseAll cs)
                             (s\<lparr>sreg := Conns_Remove c (sreg s), sworld := snd (close c (sworld s))\<rparr>))
                      else None)
                else sched_step close t ord s
            | _ \<Rightarrow> sched_step close t ord s)
      else None)"

inductive rcstep :: "('c \<Rightarrow> bool) \<Rightarrow> ('c, 'w, 'e) close_method \<Rightarrow> ('w \<Rightarrow> 'w \<Rightarrow> bool) \<Rightarrow>
    ('c, 'w) sys \<Rightarrow> 'c label \<Rightarrow> ('c, 'w) sys \<Rightarrow> bool"
  for reent close env where
  thread: "rsched_step reent close t ord s = Some (l, s') \<Longrightarrow> rcstep reent close env s l s'"
| world: "env (sworld s) w' \<Longrightarrow> rcstep reent close env s LEnv (s\<lparr>sworld := w'\<rparr>)"

inductive rcsteps :: "('c \<Rightarrow> bool) \<Rightarrow> ('c, 'w, 'e) close_method \<Rightarrow> ('w \<Rightarrow> 'w \<Rightarrow> bool) \<Rightarrow>
    ('c, 'w) sys \<Rightarrow> 'c label list \<Rightarrow> ('c, 'w) sys \<Rightarrow> bool"
  for reent close env where
  refl: "rcsteps reent close env s [] s"
| step: "rcstep reent close env s l s' \<Longrightarrow> rcsteps reent close env s' ls s'' \<Longrightarrow> rcsteps reent close env s (l # ls) s''"

text \<open>A goroutine holds the mutex in \<open>CloseAll\<close>'s loop, about to close a re-entrant connection.\<close>

definition stuck_in_close :: "('c \<Rightarrow> bool) \<Rightarrow> ('c, 'w) sys \<Rightarrow> bool" where
  "stuck_in_close reent s \<longleftrightarrow>
     (\<exists>t c cs. t < length (sthreads s) \<and> tpc (sthreads s ! t) = InCloseAll (c # cs) \<and> reent c)"

text \<open>A run chosen by a scheduler, as \<open>run_sched\<close> of theory \<open>Conns_Concurrent\<close>.\<close>

fun rrun_sched :: "('c \<Rightarrow> bool) \<Rightarrow> ('c, 'w, 'e) close_method \<Rightarrow> (tid \<times> 'c list) list \<Rightarrow> ('c, 'w) sys \<Rightarrow> ('c label list \<times> ('c, 'w) sys) option" where
  "rrun_sched reent close [] s = Some ([], s)"
| "rrun_sched reent close ((t, ord) # sch) s =
     (case rsched_step reent close t ord s of
        None \<Rightarrow> None
      | Some (l, s') \<Rightarrow> map_option (\<lambda>(ls, s''). (l # ls, s'')) (rrun_sched reent close sch s'))"

section \<open>Lemmas\<close>

lemma rsched_step_plain:
  assumes "\<And>c cs. tpc (sthreads s ! t) = InCloseAll (c # cs) \<Longrightarrow> \<not> reent c"
  shows "rsched_step reent close t ord s = sched_step close t ord s"
proof (cases "tpc (sthreads s ! t)")
  case (InCloseAll ks)
  then show ?thesis using assms by (cases ks) (auto simp: rsched_step_def sched_step_def)
qed (auto simp: rsched_step_def sched_step_def)

lemma rcstep_inv: "rcstep reent close env s l s' \<Longrightarrow> sys_inv s \<Longrightarrow> sys_inv s'"
proof (induction rule: rcstep.induct)
  case (thread t ord s l s')
  show ?case
  proof (cases "\<exists>c cs. tpc (sthreads s ! t) = InCloseAll (c # cs) \<and> reent c")
    case True
    then obtain c cs where pc: "tpc (sthreads s ! t) = InCloseAll (c # cs)" and r: "reent c" by blast
    from thread.hyps have t: "t < length (sthreads s)" by (simp add: rsched_step_def split: if_splits)
    have "mutex (sreg s) = Some t" by (rule sys_inv_holder [OF thread.prems t]) (simp add: pc)
    with thread.hyps pc r t show ?thesis by (simp add: rsched_step_def)
  next
    case False
    have "rsched_step reent close t ord s = sched_step close t ord s"
      by (rule rsched_step_plain) (use False in blast)
    with thread.hyps have "sched_step close t ord s = Some (l, s')" by simp
    from cstep_inv [OF cstep.thread [OF this] thread.prems] show ?thesis .
  qed
next
  case (world s w')
  then show ?case by (simp add: sys_inv_def)
qed

lemma rcsteps_inv: "rcsteps reent close env s ls s' \<Longrightarrow> sys_inv s \<Longrightarrow> sys_inv s'"
  by (induction rule: rcsteps.induct) (blast intro: rcstep_inv)+

text \<open>Once a goroutine is about to close a re-entrant connection, no goroutine can move.\<close>

lemma stuck_blocks_all:
  assumes inv: "sys_inv s" and stuck: "stuck_in_close reent s"
  shows "rsched_step reent close u ord s = None"
proof -
  from stuck obtain t c cs where t: "t < length (sthreads s)"
    and pc: "tpc (sthreads s ! t) = InCloseAll (c # cs)" and r: "reent c"
    by (auto simp: stuck_in_close_def)
  have mt: "mutex (sreg s) = Some t" by (rule sys_inv_holder [OF inv t]) (simp add: pc)
  show ?thesis
  proof (cases "u = t")
    case True
    with pc r t mt show ?thesis by (simp add: rsched_step_def)
  next
    case False
    show ?thesis
    proof (cases "u < length (sthreads s)")
      case True
      have idle: "tpc (sthreads s ! u) = Idle" by (rule sys_inv_others_idle [OF inv mt True False])
      have "sched_step close u ord s = None" by (rule sched_step_blocked [OF inv t _ False]) (simp add: pc)
      with idle True show ?thesis by (simp add: rsched_step_def)
    next
      case False
      then show ?thesis by (simp add: rsched_step_def)
    qed
  qed
qed

lemma stuck_world_update [simp]: "stuck_in_close reent (s\<lparr>sworld := w'\<rparr>) = stuck_in_close reent s"
  by (simp add: stuck_in_close_def)

lemma stuck_rcsteps:
  "rcsteps reent close env s ls s' \<Longrightarrow> sys_inv s \<Longrightarrow> stuck_in_close reent s \<Longrightarrow>
     set ls \<subseteq> {LEnv} \<and> sys_inv s' \<and> stuck_in_close reent s' \<and> sreg s' = sreg s \<and> sthreads s' = sthreads s"
proof (induction rule: rcsteps.induct)
  case (refl s)
  then show ?case by simp
next
  case (step s l s1 ls s')
  from step.hyps(1) have "l = LEnv \<and> sreg s1 = sreg s \<and> sthreads s1 = sthreads s \<and> stuck_in_close reent s1"
  proof (cases rule: rcstep.cases)
    case (thread t ord)
    then show ?thesis using stuck_blocks_all [OF step.prems, of close t ord] by simp
  next
    case (world w')
    then show ?thesis using step.prems(2) by simp
  qed
  moreover have "sys_inv s1" by (rule rcstep_inv [OF step.hyps(1) step.prems(1)])
  ultimately show ?case using step.IH by simp
qed


lemma rrun_sched_rcsteps: "rrun_sched reent close sch s = Some (ls, s') \<Longrightarrow> rcsteps reent close env s ls s'"
proof (induction sch arbitrary: s ls)
  case Nil
  then show ?case by (simp add: rcsteps.refl)
next
  case (Cons a sch)
  obtain t ord where a: "a = (t, ord)" by fastforce
  from Cons.prems a obtain l s1 ls1 where st: "rsched_step reent close t ord s = Some (l, s1)"
    and rest: "rrun_sched reent close sch s1 = Some (ls1, s')" and ls: "ls = l # ls1"
    by (auto split: option.splits)
  from rcsteps.step [OF rcstep.thread [OF st] Cons.IH [OF rest]] ls show ?case by simp
qed

lemma rcsteps_append:
  "rcsteps reent close env s ls1 s1 \<Longrightarrow> rcsteps reent close env s1 ls2 s2 \<Longrightarrow> rcsteps reent close env s (ls1 @ ls2) s2"
  by (induction rule: rcsteps.induct) (auto intro: rcsteps.step)

text \<open>The loop of \<open>CloseAll\<close> closes the connections that do not re-enter, one by one.\<close>

lemma loop_to_reentrant:
  assumes "t < length (sthreads s)" and "tpc (sthreads s ! t) = InCloseAll (xs @ rest)"
    and "\<forall>x \<in> set xs. \<not> reent x"
  shows "\<exists>ls s'. rcsteps reent close env s ls s' \<and> t < length (sthreads s') \<and> tpc (sthreads s' ! t) = InCloseAll rest"
  using assms
proof (induction xs arbitrary: s)
  case Nil
  then show ?case by (intro exI [of _ "[]"] exI [of _ s]) (simp add: rcsteps.refl)
next
  case (Cons x xs)
  let ?s1 = "put_pc t (InCloseAll (xs @ rest)) (s\<lparr>sworld := snd (close x (sworld s))\<rparr>)"
  have "rsched_step reent close t [] s = Some (LClose t x, ?s1)"
    using Cons.prems by (simp add: rsched_step_def sched_step_def)
  then have one: "rcsteps reent close env s [LClose t x] ?s1"
    by (rule rcsteps.step [OF rcstep.thread rcsteps.refl])
  have "t < length (sthreads ?s1)" "tpc (sthreads ?s1 ! t) = InCloseAll (xs @ rest)"
    using Cons.prems(1) by (simp_all add: put_pc_nth)
  from Cons.IH [OF this] Cons.prems(3) obtain ls s' where
    "rcsteps reent close env ?s1 ls s'" "t < length (sthreads s')" "tpc (sthreads s' ! t) = InCloseAll rest"
    by auto
  with rcsteps_append [OF one] show ?case by blast
qed

lemma rsched_step_lock_idle:
  assumes "rsched_step reent close t ord s = Some (LLock t, s1)"
  shows "tpc (sthreads s ! t) = Idle \<and> sched_step close t ord s = Some (LLock t, s1)"
proof -
  from assms have t: "t < length (sthreads s)" by (simp add: rsched_step_def split: if_splits)
  have plain: "rsched_step reent close t ord s = sched_step close t ord s"
  proof (rule rsched_step_plain)
    fix c cs assume "tpc (sthreads s ! t) = InCloseAll (c # cs)"
    with assms t show "\<not> reent c" by (auto simp: rsched_step_def split: if_splits)
  qed
  with assms have st: "sched_step close t ord s = Some (LLock t, s1)" by simp
  have "tpc (sthreads s ! t) = Idle"
  proof (rule ccontr)
    assume "tpc (sthreads s ! t) \<noteq> Idle"
    with st t have "pc_step close t (tpc (sthreads s ! t)) s = (LLock t, s1)" by (simp add: sched_step_Some)
    then show False using pc_step_not_lock [of close t "tpc (sthreads s ! t)" s t] by simp
  qed
  with st show ?thesis by simp
qed

lemma stuck_not_returned: "sys_inv s \<Longrightarrow> stuck_in_close reent s \<Longrightarrow> \<not> all_returned s"
  by (fastforce simp: stuck_in_close_def sys_inv_def all_returned_def list_all_length)


section \<open>The deadlock under concurrency\<close>

text \<open>
  C23. With a re-entrant \<open>Close\<close>, the deadlock of section 9 of the specification is
  total and permanent: in every run from the zero-value registry, once a goroutine in
  \<open>CloseAll\<close>'s loop is about to close a connection whose \<open>Close\<close> calls \<open>Remove\<close>, no
  goroutine ever takes a registry step again (only other goroutines' use of the
  connections goes on), and not every goroutine has returned.
\<close>

theorem reentrant_close_deadlock:
  assumes "rcsteps reent close env (sys_init w progs) ls s" and "stuck_in_close reent s"
    and "rcsteps reent close env s ls' s'"
  shows "set ls' \<subseteq> {LEnv} \<and> (\<forall>u ord. rsched_step reent close u ord s' = None) \<and> \<not> all_returned s'"
proof -
  have inv: "sys_inv s" by (rule rcsteps_inv [OF assms(1) sys_init_inv])
  from stuck_rcsteps [OF assms(3) inv assms(2)] have
    env: "set ls' \<subseteq> {LEnv}" and inv': "sys_inv s'" and stuck': "stuck_in_close reent s'" by simp_all
  show ?thesis using env stuck_blocks_all [OF inv' stuck'] stuck_not_returned [OF inv' stuck'] by blast
qed

text \<open>
  C24. And every \<open>CloseAll\<close> that takes the mutex with a re-entrant connection among the
  keys it iterates over gets there: its loop closes the keys before the first re-entrant
  one and then is about to close that one.
\<close>

theorem reentrant_CloseAll_reaches_deadlock:
  assumes "rcsteps reent close env (sys_init w progs) ls0 s"
    and "rsched_step reent close t ord s = Some (LLock t, s1)"
    and "tcalls (sthreads s ! t) \<noteq> []" and "hd (tcalls (sthreads s ! t)) = CCloseAll"
    and "c \<in> set ord" and "reent c"
  shows "\<exists>ls s'. rcsteps reent close env s1 ls s' \<and> stuck_in_close reent s'"
proof -
  from rsched_step_lock_idle [OF assms(2)] have idle: "tpc (sthreads s ! t) = Idle"
    and st: "sched_step close t ord s = Some (LLock t, s1)" by simp_all
  from st have t: "t < length (sthreads s)" by (simp add: sched_step_Some)
  from st idle assms(3,4) t have s1: "s1 = put_pc t (InCloseAll ord) (s\<lparr>sreg := (sreg s)\<lparr>mutex := Some t\<rparr>\<rparr>)"
    by (cases "tcalls (sthreads s ! t)") (auto simp: sched_step_Some lock_step_Some)
  have t1: "t < length (sthreads s1)" and pc1: "tpc (sthreads s1 ! t) = InCloseAll ord"
    using t by (simp_all add: s1 put_pc_nth)
  from assms(5,6) have "\<exists>x \<in> set ord. reent x" by blast
  then obtain xs y ys where ord: "ord = xs @ y # ys" and ry: "reent y" and nx: "\<forall>x \<in> set xs. \<not> reent x"
    using split_list_first_prop [of ord reent] by blast
  from loop_to_reentrant [OF t1 _ nx, of "y # ys" close env] pc1 ord obtain ls s' where
    run: "rcsteps reent close env s1 ls s'" and "t < length (sthreads s')" "tpc (sthreads s' ! t) = InCloseAll (y # ys)"
    by auto
  with ry have "stuck_in_close reent s'" by (auto simp: stuck_in_close_def)
  with run show ?thesis by blast
qed


theorem reentrant_close_deadlock_witness:
  "rcsteps (\<lambda>_::nat. True) log_close (\<lambda>_ _. False) (sys_init ([] :: nat list) [[CAdd (1::nat), CCloseAll]]) [LLock 0, LLin 0 (CAdd (1::nat)), LUnlock 0, LLock 0] \<lparr>sreg = \<lparr>mutex = Some 0, conns = Some [1::nat \<mapsto> True]\<rparr>, sworld = [] :: nat list, sthreads = [\<lparr>tpc = InCloseAll [1], tcalls = [CCloseAll]\<rparr>]\<rparr>
   \<and> stuck_in_close (\<lambda>_::nat. True) \<lparr>sreg = \<lparr>mutex = Some 0, conns = Some [1::nat \<mapsto> True]\<rparr>, sworld = [] :: nat list, sthreads = [\<lparr>tpc = InCloseAll [1], tcalls = [CCloseAll]\<rparr>]\<rparr>
   \<and> rcsteps (\<lambda>_::nat. True) log_close (\<lambda>_ _. False) \<lparr>sreg = \<lparr>mutex = Some 0, conns = Some [1::nat \<mapsto> True]\<rparr>, sworld = [] :: nat list, sthreads = [\<lparr>tpc = InCloseAll [1], tcalls = [CCloseAll]\<rparr>]\<rparr> [] \<lparr>sreg = \<lparr>mutex = Some 0, conns = Some [1::nat \<mapsto> True]\<rparr>, sworld = [] :: nat list, sthreads = [\<lparr>tpc = InCloseAll [1], tcalls = [CCloseAll]\<rparr>]\<rparr>
   \<and> set ([] :: nat label list) \<subseteq> {LEnv} \<and> (\<forall>u ord. rsched_step (\<lambda>_::nat. True) log_close u ord \<lparr>sreg = \<lparr>mutex = Some 0, conns = Some [1::nat \<mapsto> True]\<rparr>, sworld = [] :: nat list, sthreads = [\<lparr>tpc = InCloseAll [1], tcalls = [CCloseAll]\<rparr>]\<rparr> = None)
   \<and> \<not> all_returned \<lparr>sreg = \<lparr>mutex = Some 0, conns = Some [1::nat \<mapsto> True]\<rparr>, sworld = [] :: nat list, sthreads = [\<lparr>tpc = InCloseAll [1], tcalls = [CCloseAll]\<rparr>]\<rparr>"
proof -
  have h1: "rcsteps (\<lambda>_::nat. True) log_close (\<lambda>_ _. False) (sys_init ([] :: nat list) [[CAdd (1::nat), CCloseAll]]) [LLock 0, LLin 0 (CAdd (1::nat)), LUnlock 0, LLock 0] \<lparr>sreg = \<lparr>mutex = Some 0, conns = Some [1::nat \<mapsto> True]\<rparr>, sworld = [] :: nat list, sthreads = [\<lparr>tpc = InCloseAll [1], tcalls = [CCloseAll]\<rparr>]\<rparr>"
    by (rule rrun_sched_rcsteps [where sch = "[(0, []), (0, []), (0, []), (0, [1])]"])
      (simp add: rsched_step_def sched_eval)
  have h2: "stuck_in_close (\<lambda>_::nat. True) \<lparr>sreg = \<lparr>mutex = Some 0, conns = Some [1::nat \<mapsto> True]\<rparr>, sworld = [] :: nat list, sthreads = [\<lparr>tpc = InCloseAll [1], tcalls = [CCloseAll]\<rparr>]\<rparr>" unfolding stuck_in_close_def by (rule exI [of _ 0]) simp
  have h3: "rcsteps (\<lambda>_::nat. True) log_close (\<lambda>_ _. False) \<lparr>sreg = \<lparr>mutex = Some 0, conns = Some [1::nat \<mapsto> True]\<rparr>, sworld = [] :: nat list, sthreads = [\<lparr>tpc = InCloseAll [1], tcalls = [CCloseAll]\<rparr>]\<rparr> [] \<lparr>sreg = \<lparr>mutex = Some 0, conns = Some [1::nat \<mapsto> True]\<rparr>, sworld = [] :: nat list, sthreads = [\<lparr>tpc = InCloseAll [1], tcalls = [CCloseAll]\<rparr>]\<rparr>" by (rule rcsteps.refl)
  show ?thesis by (rule conjI [OF h1 conjI [OF h2 conjI [OF h3 reentrant_close_deadlock [OF h1 h2 h3]]]])
qed

theorem reentrant_CloseAll_reaches_deadlock_witness:
  "rcsteps (\<lambda>_::nat. True) log_close (\<lambda>_ _. False) (sys_init ([] :: nat list) [[CAdd (1::nat), CCloseAll]]) [LLock 0, LLin 0 (CAdd (1::nat)), LUnlock 0] \<lparr>sreg = \<lparr>mutex = None, conns = Some [1::nat \<mapsto> True]\<rparr>, sworld = [] :: nat list, sthreads = [\<lparr>tpc = Idle, tcalls = [CCloseAll]\<rparr>]\<rparr>
   \<and> rsched_step (\<lambda>_::nat. True) log_close 0 [1] \<lparr>sreg = \<lparr>mutex = None, conns = Some [1::nat \<mapsto> True]\<rparr>, sworld = [] :: nat list, sthreads = [\<lparr>tpc = Idle, tcalls = [CCloseAll]\<rparr>]\<rparr> = Some (LLock 0, \<lparr>sreg = \<lparr>mutex = Some 0, conns = Some [1::nat \<mapsto> True]\<rparr>, sworld = [] :: nat list, sthreads = [\<lparr>tpc = InCloseAll [1], tcalls = [CCloseAll]\<rparr>]\<rparr>)
   \<and> tcalls (sthreads \<lparr>sreg = \<lparr>mutex = None, conns = Some [1::nat \<mapsto> True]\<rparr>, sworld = [] :: nat list, sthreads = [\<lparr>tpc = Idle, tcalls = [CCloseAll]\<rparr>]\<rparr> ! 0) \<noteq> [] \<and> hd (tcalls (sthreads \<lparr>sreg = \<lparr>mutex = None, conns = Some [1::nat \<mapsto> True]\<rparr>, sworld = [] :: nat list, sthreads = [\<lparr>tpc = Idle, tcalls = [CCloseAll]\<rparr>]\<rparr> ! 0)) = CCloseAll
   \<and> (1::nat) \<in> set [1] \<and> (\<lambda>_::nat. True) 1
   \<and> (\<exists>ls s'. rcsteps (\<lambda>_::nat. True) log_close (\<lambda>_ _. False) \<lparr>sreg = \<lparr>mutex = Some 0, conns = Some [1::nat \<mapsto> True]\<rparr>, sworld = [] :: nat list, sthreads = [\<lparr>tpc = InCloseAll [1], tcalls = [CCloseAll]\<rparr>]\<rparr> ls s' \<and> stuck_in_close (\<lambda>_::nat. True) s')"
proof -
  have h1: "rcsteps (\<lambda>_::nat. True) log_close (\<lambda>_ _. False) (sys_init ([] :: nat list) [[CAdd (1::nat), CCloseAll]]) [LLock 0, LLin 0 (CAdd (1::nat)), LUnlock 0] \<lparr>sreg = \<lparr>mutex = None, conns = Some [1::nat \<mapsto> True]\<rparr>, sworld = [] :: nat list, sthreads = [\<lparr>tpc = Idle, tcalls = [CCloseAll]\<rparr>]\<rparr>"
    by (rule rrun_sched_rcsteps [where sch = "[(0, []), (0, []), (0, [])]"])
      (simp add: rsched_step_def sched_eval)
  have h2: "rsched_step (\<lambda>_::nat. True) log_close 0 [1] \<lparr>sreg = \<lparr>mutex = None, conns = Some [1::nat \<mapsto> True]\<rparr>, sworld = [] :: nat list, sthreads = [\<lparr>tpc = Idle, tcalls = [CCloseAll]\<rparr>]\<rparr> = Some (LLock 0, \<lparr>sreg = \<lparr>mutex = Some 0, conns = Some [1::nat \<mapsto> True]\<rparr>, sworld = [] :: nat list, sthreads = [\<lparr>tpc = InCloseAll [1], tcalls = [CCloseAll]\<rparr>]\<rparr>)"
    by (simp add: rsched_step_def sched_eval)
  have h3: "tcalls (sthreads \<lparr>sreg = \<lparr>mutex = None, conns = Some [1::nat \<mapsto> True]\<rparr>, sworld = [] :: nat list, sthreads = [\<lparr>tpc = Idle, tcalls = [CCloseAll]\<rparr>]\<rparr> ! 0) \<noteq> []" by simp
  have h4: "hd (tcalls (sthreads \<lparr>sreg = \<lparr>mutex = None, conns = Some [1::nat \<mapsto> True]\<rparr>, sworld = [] :: nat list, sthreads = [\<lparr>tpc = Idle, tcalls = [CCloseAll]\<rparr>]\<rparr> ! 0)) = CCloseAll" by simp
  have h5: "(1::nat) \<in> set [1]" by simp
  have h6: "(\<lambda>_::nat. True) 1" by simp
  show ?thesis by (rule conjI [OF h1 conjI [OF h2 conjI [OF h3 conjI [OF h4 conjI [OF h5 conjI [OF h6
      reentrant_CloseAll_reaches_deadlock [OF h1 h2 h3 h4 h5 h6]]]]]]])
qed

end
