(* ===== verification/Spec2Isabelle.thy ===== *)
theory Spec2Isabelle
  imports Conn Conns Conns_Concurrent Conns_Methods Conns_Refinement Conns_Reentrant
begin

text \<open>
  \<^bold>\<open>A verified model of \<open>src/psiphon/conn.go\<close> (psiphon-tunnel-core).\<close>

  \<^emph>\<open>The program.\<close> The file defines three things. \<open>Dialer\<close> (line 28) is a
  function type for pluggable dialers; it has no behaviour of its own. \<open>Conn\<close>
  (lines 30--43) is the closeable-connection capability: a \<open>net.Conn\<close> with
  \<open>SetClosedSignal(chan struct{}) error\<close>, which registers a channel that the
  connection signals when it closes, and fails if the connection is already closed.
  \<open>Conns\<close> (lines 45--75) is the connection registry: a \<open>sync.Mutex\<close> and a
  \<open>map[net.Conn]bool\<close> (the zero value holds a \<open>nil\<close> map), with \<open>Add\<close> (allocate
  the map if needed, set the key), \<open>Remove\<close> (delete the key) and \<open>CloseAll\<close> (call
  \<open>Close\<close> on every key while holding the mutex, then install a fresh empty map). The
  registry and the capability meet in \<open>CloseAll\<close>, whose \<open>conn.Close()\<close> runs the
  implementation's \<open>Close\<close>, which signals the registered channel; the tunnel code
  outside \<open>src/\<close> uses the registry to interrupt dials and the signal to learn that a
  tunnel connection died.

  \<^emph>\<open>The theories.\<close>
  \<^item> \<open>Prelude\<close>: type names (\<open>tid\<close>, \<open>chan_id\<close>, \<open>gomap\<close>: a Go map, \<open>None\<close> for
    \<open>nil\<close>), Go map primitives (\<open>gomap_keys\<close>, \<open>gomap_delete\<close> for \<open>delete\<close>),
    \<open>range_order\<close> (the iteration orders Go's \<open>range\<close> may choose: each key once,
    in any order), and shared lemmas on maps, folds, counts and list sums.
  \<^item> \<open>Channel\<close>: the Go channel \<open>chan struct{}\<close> as a record (capacity, buffered
    values, blocked receivers, values received); \<open>chan_trysend\<close> is
    \<open>select { case ch <- struct{}{}: default: }\<close>, \<open>chan_recv\<close> is \<open><-ch\<close>.
  \<^item> \<open>Conn\<close>: the interface (\<open>conn_method\<close>: \<open>Close\<close>, \<open>SetClosedSignal\<close>) and,
    since \<open>DirectConn\<close>/\<open>MeekConn\<close> are not in \<open>src/\<close>, their behaviour modelled
    from the interface comment and the specification (\<open>conn_state\<close>,
    \<open>conn_SetClosedSignal\<close>, \<open>conn_Close\<close>, \<open>conn_call\<close>); \<open>conn_run\<close> runs any
    interleaving of calls (serialised by the connection's own mutex) and receives;.
  \<^item> \<open>Conns\<close>: the registry record (\<open>mutex\<close>, \<open>conns\<close>), \<open>Conns_Add\<close>,
    \<open>Conns_Remove\<close>, \<open>Conns_CloseAll\<close> with its loop \<open>closeAll_loop\<close>, as executed
    while the caller holds the mutex. \<open>Close\<close> is a parameter \<open>close\<close> of type
    \<open>close_method\<close> (receiver, world, error result), so every lemma holds for every
    \<open>net.Conn\<close> implementation; \<open>log_close\<close>, a \<open>Close\<close> that records its receiver,
    makes the calls \<open>CloseAll\<close> makes observable. The abstraction is \<open>members\<close>
    (the key set) with the set operations \<open>set_op\<close>; \<open>Conns_run\<close> runs any sequence
    of calls.
  \<^item> \<open>Conns_Concurrent\<close>: goroutines calling the registry concurrently. State: the
    registry, the world of connections, and per goroutine its position \<open>tpc\<close> and
    remaining calls \<open>tcalls\<close>. Steps (\<open>sched_step\<close>): \<open>Lock\<close> (only on a free
    mutex; a \<open>CloseAll\<close> fixes its iteration order here), the body of \<open>Add\<close> or
    \<open>Remove\<close>, each \<open>Close\<close> of the \<open>CloseAll\<close> loop, the installation of the empty
    map, the deferred \<open>Unlock\<close>; \<open>cstep\<close> adds environment steps \<open>env\<close> on the world
    (other goroutines using the connections). Labels record the trace; \<open>LLin\<close> marks
    the step at which a call takes effect.
  \<^item> \<open>Conns_Methods\<close>: the methods as a goroutine runs them, mutex included
    (\<open>Conns_Lock\<close>, the body, the deferred \<open>Conns_Unlock\<close>; \<open>Add_method\<close>,
    \<open>Remove_method\<close>, \<open>CloseAll_method\<close> with its loop \<open>closeAll_loop_m\<close>), in the
    option monad: a \<open>Lock\<close> on a held mutex in a goroutine's own sequential run never
    returns (\<open>None\<close>). Here \<open>Close\<close> may call back into the registry
    (\<open>reg_close\<close>): \<open>world_only\<close> lifts a \<open>Close\<close> of the world, \<open>self_removing\<close>
    is the \<open>Close\<close> of section 9 of the specification that removes itself from the
    registry.
  \<^item> \<open>Conns_Refinement\<close>: the interleaved model against the sequential one. A trace
    is read back as sequential calls (\<open>trace_ops\<close>: each linearisation point a call,
    a \<open>CloseAll\<close> carrying the connections its loop closed); \<open>replay\<close> gives a trace
    its label-by-label meaning; \<open>open_closes\<close> are the closes of a loop still running.
  \<^item> \<open>Conns_Reentrant\<close>: the interleaved registry when the \<open>Close\<close> of some
    connections (\<open>reent\<close>) calls \<open>Remove\<close> on the same registry: \<open>rsched_step\<close>
    is \<open>sched_step\<close> except that the loop step closing such a connection needs the
    \<open>Lock\<close> of that nested \<open>Remove\<close> to succeed; \<open>rcstep\<close>, \<open>rcsteps\<close> as before;
    \<open>stuck_in_close\<close> is the state where a goroutine is about to make that call.
  \<^item> \<open>Spec2Isabelle\<close> (this theory): the registry whose \<open>Close\<close> is the
    implementation's (\<open>world_Close\<close> on a store of connection states and channels),
    and \<open>conn_env\<close>, other goroutines using the connections (any \<open>conn_step\<close>), as the
    environment of the concurrent registry.

  \<^emph>\<open>What is proved.\<close> For the registry (\<open>Conns\<close>): \<open>CloseAll\<close> calls \<open>Close\<close>
  exactly once on every member and on nothing else, for every iteration order, and
  empties the registry; \<open>Remove\<close> of a non-member is a no-op, also on the \<open>nil\<close> map;
  any sequence of calls refines the abstract set operations; \<open>Remove\<close> after \<open>Add\<close>
  of a non-member gives the registry back (a \<open>nil\<close> map comes back allocated). Under
  concurrency (\<open>Conns_Concurrent\<close>), for every interleaving from the zero value, by
  rule induction over the steps with the invariant \<open>sys_inv\<close>: while a goroutine is
  inside a method no other goroutine takes a registry step, and the mutex is held
  exactly by the goroutine inside a method (so Go's fatal unlock of an unlocked mutex
  cannot occur); \<open>N\<close> concurrent distinct adds give \<open>N\<close> members; \<open>CloseAll\<close>
  closes exactly the members at its \<open>Lock\<close>, in its iteration order, with no other
  registry step in between; there is no deadlock, and from every reachable state all
  goroutines can return. With the mutex (\<open>Conns_Methods\<close>): sequential calls never
  block and compute exactly the body-level model; a \<open>Close\<close> that removes itself
  makes \<open>CloseAll\<close> block for ever, exactly when the registry is non-empty (the
  hazard of section 9, in the code as written). The two registry models agree
  (\<open>Conns_Refinement\<close>): every state of an interleaved run without environment steps
  in which the mutex is free is the state \<open>Conns_run\<close> computes for the calls read off
  its trace, \<open>Close\<close> calls included (this fails without the mutex, when two
  \<open>CloseAll\<close> loops interleave), and every sequence of calls with admissible
  iteration orders is realised by a goroutine alone. With a re-entrant \<open>Close\<close>
  (\<open>Conns_Reentrant\<close>), every \<open>CloseAll\<close> whose keys include such a connection
  reaches a state from which no goroutine ever takes a registry step again and not all
  goroutines return: the deadlock of section 9, for the whole system. For the
  capability (\<open>Conn\<close>): \<open>SetClosedSignal\<close> after \<open>Close\<close> fails and changes
  nothing; the registered channel is signalled exactly once if the send can proceed,
  over any interleaving at most one signal is sent, and a replaced channel is never
  signalled; on an unbuffered channel with no waiting receiver the signal is lost,
  against the promise of the interface comment (lines 37--38). Across components (this
  theory): \<open>CloseAll\<close> closes every member's connection and touches no other, and
  each member's own channel is signalled exactly once; under concurrency, with other
  goroutines closing, arming and receiving on the connections meanwhile, once a
  \<open>CloseAll\<close> has taken effect every connection that was a member at its \<open>Lock\<close> is
  closed.

  \<^emph>\<open>Choices and bounds.\<close> No fuel is needed: every loop of the code is a
  \<open>range\<close> over a finite map, modelled by structural recursion over an iteration
  order; the order is a parameter constrained by \<open>range_order\<close>, so the results hold
  for every order Go's randomised iteration may produce. Concurrency is interleaving of
  atomic steps at the granularity of the mutex: the body of \<open>Add\<close> or \<open>Remove\<close> is
  one step, since the map is only touched under the mutex and no other registry step
  can come between its reads and writes; so the model shows what the mutex serialises
  between steps (a \<open>CloseAll\<close> loop against everything else, \<open>Lock\<close> and
  \<open>Unlock\<close>), not the data race on the map it also prevents. That all goroutines can
  return is proved with a well-founded measure on remaining calls, goroutines waiting
  to lock, and progress within a call. A \<open>Lock\<close> that blocks is
  \<open>None\<close> in \<open>Conns_Methods\<close> rather than a wait bounded by fuel: in one goroutine's
  sequential run nothing else can release the mutex, so the call never returns.

  \<^emph>\<open>Not modelled.\<close> \<open>Dialer\<close>: line 28 is a type only, and neither a dialer
  nor the callers that dial and then register with \<open>Conns\<close> are in the repository; the I/O of \<open>net.Conn\<close>
  (\<open>Read\<close>, \<open>Write\<close>, deadlines); the error an underlying socket's \<open>Close\<close> may
  return (\<open>CloseAll\<close> discards it, and it never affects the state). A \<open>Close\<close>
  that calls back into the registry is modelled for one goroutine's sequential calls
  (\<open>Conns_Methods\<close>) and, for \<open>Remove\<close>, in the interleaving (\<open>Conns_Reentrant\<close>);
  elsewhere the interleaved model (\<open>Conns_Concurrent\<close>) takes \<open>Close\<close> to act on the
  world only, as the implementations of the repository do (specification, section 7: the registry is safe
  "given correct (non-reentrant) use"). Go's \<open>Unlock\<close> of an unlocked mutex is a
  fatal error; the model has no such step, and the invariant of \<open>Conns_Concurrent\<close>
  shows that the code never reaches it.
\<close>

section \<open>The registry with the connections' own Close\<close>

text \<open>
  The world of connections: each connection handle's implementation state, and the
  channels. \<open>world_Close\<close> is \<open>conn.Close()\<close> at line 72, dispatched to the
  implementation.
\<close>

type_synonym 'c world = "('c \<Rightarrow> conn_state) \<times> chans"

definition world_Close :: "('c, 'c world, conn_error) close_method" where
  "world_Close c w =
     (case w of (cs, chs) \<Rightarrow> (case conn_Close (cs c) chs of (c', chs') \<Rightarrow> (None, (cs(c := c'), chs'))))"

definition closed_state :: "conn_state \<Rightarrow> conn_state" where
  "closed_state c = (if isClosed c then c else c\<lparr>isClosed := True\<rparr>)"

text \<open>
  Other goroutines using the connections while the registry runs (the environment of
  theory \<open>Conns_Concurrent\<close>): a call on one connection's interface, or a receive on
  one of the channels, as \<open>conn_step\<close> runs it.
\<close>

inductive conn_env :: "'c world \<Rightarrow> 'c world \<Rightarrow> bool" where
  use: "conn_step e (cs c, chs) = (c', chs') \<Longrightarrow> conn_env (cs, chs) (cs(c := c'), chs')"

section \<open>Lemmas\<close>

lemma fst_conn_Close: "fst (conn_Close c chs) = closed_state c"
  by (simp add: conn_Close_def closed_state_def)

lemma world_Close_conns:
  "fst (snd (world_Close c (cs, chs))) = cs(c := closed_state (cs c))"
proof -
  obtain c' chs' where cc: "conn_Close (cs c) chs = (c', chs')" by fastforce
  then have "c' = closed_state (cs c)" using fst_conn_Close [of "cs c" chs] by simp
  with cc show ?thesis by (simp add: world_Close_def)
qed

lemma world_Close_chans:
  "chan_signals (snd (snd (world_Close c (cs, chs))) k) =
     chan_signals (chs k) + (if \<not> isClosed (cs c) \<and> closedSignal (cs c) = Some k \<and> chan_ready (chs k) then 1 else 0)"
  by (cases "isClosed (cs c)") (auto simp: world_Close_def conn_Close_def conn_signal_signals split: prod.splits)

lemma closed_state_idem [simp]: "closed_state (closed_state c) = closed_state c"
  and closed_state_isClosed [simp]: "isClosed (closed_state c)"
  and closed_state_signal [simp]: "closedSignal (closed_state c) = closedSignal c"
  by (simp_all add: closed_state_def)

lemma fold_world_Close_conns:
  "fst (fold (\<lambda>c w. snd (world_Close c w)) xs (cs, chs)) d = (if d \<in> set xs then closed_state (cs d) else cs d)"
proof (induction xs arbitrary: cs chs)
  case Nil
  then show ?case by simp
next
  case (Cons x xs)
  obtain cs1 chs1 where w1: "snd (world_Close x (cs, chs)) = (cs1, chs1)" by fastforce
  with world_Close_conns [of x cs chs] have cs1: "cs1 = cs(x := closed_state (cs x))" by simp
  have "fst (fold (\<lambda>c w. snd (world_Close c w)) (x # xs) (cs, chs)) d
      = (if d \<in> set xs then closed_state (cs1 d) else cs1 d)"
    using Cons.IH [of cs1 chs1] w1 by simp
  then show ?case unfolding cs1 by auto
qed

lemma world_Close_other_chan:
  "isClosed (cs x) \<or> closedSignal (cs x) \<noteq> Some k \<Longrightarrow> snd (snd (world_Close x (cs, chs))) k = chs k"
  by (auto simp: world_Close_def conn_Close_def conn_signal_def split: prod.splits option.splits)

lemma fold_world_Close_quiet:
  assumes "\<forall>d \<in> set xs. isClosed (cs d) \<or> closedSignal (cs d) \<noteq> Some k"
  shows "snd (fold (\<lambda>c w. snd (world_Close c w)) xs (cs, chs)) k = chs k"
  using assms
proof (induction xs arbitrary: cs chs)
  case Nil
  then show ?case by simp
next
  case (Cons x xs)
  obtain cs1 chs1 where w1: "snd (world_Close x (cs, chs)) = (cs1, chs1)" by fastforce
  with world_Close_conns [of x cs chs] have cs1: "cs1 = cs(x := closed_state (cs x))" by simp
  have "chs1 k = chs k"
    using world_Close_other_chan [of cs x k chs] w1 Cons.prems by simp
  moreover have "\<forall>d \<in> set xs. isClosed (cs1 d) \<or> closedSignal (cs1 d) \<noteq> Some k"
    using Cons.prems cs1 by auto
  ultimately show ?case using Cons.IH [of cs1 chs1] w1 by simp
qed

lemma fold_world_Close_once:
  assumes "distinct xs" and "c \<in> set xs" and "\<not> isClosed (cs c)" and "closedSignal (cs c) = Some k"
    and "\<forall>d \<in> set xs. d \<noteq> c \<longrightarrow> isClosed (cs d) \<or> closedSignal (cs d) \<noteq> Some k"
    and "chan_ready (chs k)"
  shows "chan_signals (snd (fold (\<lambda>c w. snd (world_Close c w)) xs (cs, chs)) k) = Suc (chan_signals (chs k))"
  using assms
proof (induction xs arbitrary: cs chs)
  case Nil
  then show ?case by simp
next
  case (Cons x xs)
  obtain cs1 chs1 where w1: "snd (world_Close x (cs, chs)) = (cs1, chs1)" by fastforce
  with world_Close_conns [of x cs chs] have cs1: "cs1 = cs(x := closed_state (cs x))" by simp
  show ?case
  proof (cases "x = c")
    case True
    have sig: "chan_signals (chs1 k) = Suc (chan_signals (chs k))"
      using world_Close_chans [of x cs chs k] w1 True Cons.prems by simp
    have "\<forall>d \<in> set xs. isClosed (cs1 d) \<or> closedSignal (cs1 d) \<noteq> Some k"
      using Cons.prems True cs1 by auto
    from fold_world_Close_quiet [OF this, of chs1] sig w1 show ?thesis by simp
  next
    case False
    have "chs1 k = chs k"
      using world_Close_other_chan [of cs x k chs] w1 Cons.prems False by simp
    moreover have "distinct xs" "c \<in> set xs" "\<not> isClosed (cs1 c)" "closedSignal (cs1 c) = Some k"
        "\<forall>d \<in> set xs. d \<noteq> c \<longrightarrow> isClosed (cs1 d) \<or> closedSignal (cs1 d) \<noteq> Some k"
      using Cons.prems False cs1 by auto
    ultimately show ?thesis using Cons.IH [of cs1 chs1] Cons.prems(6) w1 by simp
  qed
qed

text \<open>Closing is permanent, whatever the registry and the other goroutines do.\<close>

lemma world_Close_isClosed:
  "isClosed (fst (snd (world_Close c w)) d) \<longleftrightarrow> d = c \<or> isClosed (fst w d)"
  by (cases w) (simp add: world_Close_conns closed_state_def)

lemma conn_env_isClosed: "conn_env w w' \<Longrightarrow> isClosed (fst w d) \<Longrightarrow> isClosed (fst w' d)"
proof (induction rule: conn_env.induct)
  case (use e cs c chs c' chs')
  have "isClosed (cs c) \<Longrightarrow> isClosed c'"
    using conn_step_closed_isClosed [of "cs c" e chs] use.hyps by simp
  with use.prems show ?case by auto
qed

lemma cstep_world_isClosed:
  assumes "cstep world_Close conn_env s l s'"
  shows "(isClosed (fst (sworld s) d) \<longrightarrow> isClosed (fst (sworld s') d))
    \<and> (l = LClose t c \<longrightarrow> isClosed (fst (sworld s') c))"
  using assms
proof (induction rule: cstep.induct)
  case (thread u ord s l s')
  then show ?case
    by (cases l) (simp_all add: sched_step_world [OF thread.hyps] world_Close_isClosed)
next
  case (world s w')
  then show ?case using conn_env_isClosed [OF world.hyps, of d] by simp
qed

lemma csteps_world_isClosed:
  "csteps world_Close conn_env s ls s' \<Longrightarrow> isClosed (fst (sworld s) d) \<Longrightarrow> isClosed (fst (sworld s') d)"
  by (induction rule: csteps.induct) (blast dest: cstep_world_isClosed)+

lemma csteps_LClose_isClosed:
  "csteps world_Close conn_env s ls s' \<Longrightarrow> LClose t c \<in> set ls \<Longrightarrow> isClosed (fst (sworld s') c)"
proof (induction rule: csteps.induct)
  case (refl s)
  then show ?case by simp
next
  case (step s l s1 ls s')
  show ?case
  proof (cases "l = LClose t c")
    case True
    then have "isClosed (fst (sworld s1) c)" using cstep_world_isClosed [OF step.hyps(1)] by blast
    then show ?thesis by (rule csteps_world_isClosed [OF step.hyps(2)])
  next
    case False
    with step show ?thesis by simp
  qed
qed

section \<open>Properties across components\<close>

text \<open>
  C6. \<open>CloseAll\<close> with the implementations' \<open>Close\<close>: the registry is empty
  afterwards, every connection that was a member is closed (with its registered channel
  kept), and every other connection is exactly as before, for every iteration order.
\<close>

theorem CloseAll_closes_members:
  assumes "range_order (conns s) order"
  shows "members (fst (Conns_CloseAll world_Close order (s, (cs, chs)))) = {}
    \<and> (\<forall>d. fst (snd (Conns_CloseAll world_Close order (s, (cs, chs)))) d
          = (if d \<in> members s then closed_state (cs d) else cs d))"
proof -
  have "set order = members s" using assms by (simp add: range_order_def members_def)
  then show ?thesis by (simp add: fold_world_Close_conns)
qed

theorem CloseAll_closes_members_witness:
  "range_order (conns (Conns_Add (1::nat) (Conns_Add 0 Conns_zero))) [0, 1]
   \<and> members (fst (Conns_CloseAll world_Close [0, 1] (Conns_Add (1::nat) (Conns_Add 0 Conns_zero), (\<lambda>_. conn_new, \<lambda>_. chan_make 1)))) = {}
   \<and> (\<forall>d. fst (snd (Conns_CloseAll world_Close [0, 1] (Conns_Add (1::nat) (Conns_Add 0 Conns_zero), (\<lambda>_. conn_new, \<lambda>_. chan_make 1)))) d
          = (if d \<in> members (Conns_Add (1::nat) (Conns_Add 0 Conns_zero)) then closed_state conn_new else conn_new))"
proof -
  have h: "range_order (conns (Conns_Add (1::nat) (Conns_Add 0 Conns_zero))) [0, 1]"
    by (auto simp: range_order_def Conns_zero_def)
  show ?thesis using h CloseAll_closes_members [OF h, of "\<lambda>_. conn_new" "\<lambda>_. chan_make 1"] by simp
qed

text \<open>
  C10. \<open>CloseAll\<close> signals each member's own channel exactly once: if a member is open
  with a registered channel on which a send can proceed, and no other member has that
  channel registered while open, the channel receives exactly one signal, whatever the
  iteration order.
\<close>

theorem CloseAll_signals_member_once:
  assumes "range_order (conns s) order" and "c \<in> members s" and "\<not> isClosed (cs c)"
    and "closedSignal (cs c) = Some k"
    and "\<forall>d \<in> members s. d \<noteq> c \<longrightarrow> isClosed (cs d) \<or> closedSignal (cs d) \<noteq> Some k"
    and "chan_ready (chs k)"
  shows "chan_signals (snd (snd (Conns_CloseAll world_Close order (s, (cs, chs)))) k) = Suc (chan_signals (chs k))"
proof -
  have "distinct order" and set: "set order = members s"
    using assms(1) by (simp_all add: range_order_def members_def)
  with assms(2-6) show ?thesis by (simp add: fold_world_Close_once)
qed

theorem CloseAll_signals_member_once_witness:
  "range_order (conns (Conns_Add (1::nat) (Conns_Add 0 Conns_zero))) [1, 0]
   \<and> (0::nat) \<in> members (Conns_Add (1::nat) (Conns_Add 0 Conns_zero))
   \<and> \<not> isClosed ((\<lambda>d::nat. conn_new\<lparr>closedSignal := Some d\<rparr>) 0)
   \<and> closedSignal ((\<lambda>d::nat. conn_new\<lparr>closedSignal := Some d\<rparr>) 0) = Some 0
   \<and> chan_ready ((\<lambda>_. chan_make 1) 0)
   \<and> chan_signals (snd (snd (Conns_CloseAll world_Close [1, 0]
        (Conns_Add (1::nat) (Conns_Add 0 Conns_zero), (\<lambda>d. conn_new\<lparr>closedSignal := Some d\<rparr>, \<lambda>_. chan_make 1)))) 0)
      = Suc (chan_signals ((\<lambda>_. chan_make 1) 0))"
proof -
  have h1: "range_order (conns (Conns_Add (1::nat) (Conns_Add 0 Conns_zero))) [1, 0]"
    by (auto simp: range_order_def Conns_zero_def)
  have h2: "(0::nat) \<in> members (Conns_Add (1::nat) (Conns_Add 0 Conns_zero))" by simp
  have h3: "\<not> isClosed ((\<lambda>d::nat. conn_new\<lparr>closedSignal := Some d\<rparr>) 0)" by (simp add: conn_new_def)
  have h4: "closedSignal ((\<lambda>d::nat. conn_new\<lparr>closedSignal := Some d\<rparr>) 0) = Some 0" by simp
  have h5: "\<forall>d \<in> members (Conns_Add (1::nat) (Conns_Add 0 Conns_zero)). d \<noteq> 0 \<longrightarrow>
        isClosed ((\<lambda>d::nat. conn_new\<lparr>closedSignal := Some d\<rparr>) d)
        \<or> closedSignal ((\<lambda>d::nat. conn_new\<lparr>closedSignal := Some d\<rparr>) d) \<noteq> Some 0" by simp
  have h6: "chan_ready ((\<lambda>_. chan_make 1) (0::nat))" by simp
  show ?thesis using h1 h2 h3 h4 h6 CloseAll_signals_member_once [OF h1 h2 h3 h4 h5 h6] by blast
qed

text \<open>
  C18. \<open>CloseAll\<close> under concurrency, with the implementations' \<open>Close\<close>: whatever
  the other goroutines do meanwhile, with the registry and with the connections
  themselves (closing them, registering signals, receiving), once a \<open>CloseAll\<close> that
  took the mutex has taken effect, every connection that was a member when it took the
  mutex is closed.
\<close>

theorem CloseAll_concurrent_closes:
  assumes "csteps world_Close conn_env (sys_init w progs) ls0 s"
    and "sched_step world_Close t ord s = Some (LLock t, s1)"
    and "tcalls (sthreads s ! t) \<noteq> []" and "hd (tcalls (sthreads s ! t)) = CCloseAll"
    and "csteps world_Close conn_env s1 ls s'"
    and "LLin t CCloseAll \<in> set ls"
  shows "members (sreg s) \<subseteq> {c. isClosed (fst (sworld s') c)}"
proof -
  from closeAll_lock_future [OF assms(1-5)] have ord: "range_order (conns (sreg s)) ord"
    and pre: "prefix (take (length (map (LClose t) ord) + 2) (filter (\<lambda>l. l \<noteq> LEnv) ls))
         (map (LClose t) ord @ [LLin t CCloseAll, LUnlock t])" by simp_all
  have "LLin t CCloseAll \<in> set (filter (\<lambda>l. l \<noteq> LEnv) ls)" using assms(6) by simp
  moreover have "LLin t CCloseAll \<notin> set (map (LClose t) ord)" by auto
  ultimately have "set (map (LClose t) ord) \<subseteq> set (filter (\<lambda>l. l \<noteq> LEnv) ls)"
    by (rule prefix_take_covers [OF pre])
  then have "LClose t c \<in> set ls" if "c \<in> set ord" for c using that by auto
  then have "set ord \<subseteq> {c. isClosed (fst (sworld s') c)}"
    using csteps_LClose_isClosed [OF assms(5)] by blast
  moreover have "set ord = members (sreg s)" using ord by (simp add: range_order_def members_def)
  ultimately show ?thesis by simp
qed

theorem CloseAll_concurrent_closes_witness:
  "csteps world_Close conn_env (sys_init (\<lambda>_. conn_new, \<lambda>_. chan_make 1) [[CAdd (1::nat), CCloseAll]])
      [LLock 0, LLin 0 (CAdd 1), LUnlock 0]
      \<lparr>sreg = \<lparr>mutex = None, conns = Some [1::nat \<mapsto> True]\<rparr>, sworld = ((\<lambda>_. conn_new, \<lambda>_. chan_make 1) :: nat world),
       sthreads = [\<lparr>tpc = Idle, tcalls = [CCloseAll]\<rparr>]\<rparr>
   \<and> sched_step world_Close 0 [1]
      \<lparr>sreg = \<lparr>mutex = None, conns = Some [1::nat \<mapsto> True]\<rparr>, sworld = ((\<lambda>_. conn_new, \<lambda>_. chan_make 1) :: nat world),
       sthreads = [\<lparr>tpc = Idle, tcalls = [CCloseAll]\<rparr>]\<rparr>
    = Some (LLock 0, \<lparr>sreg = \<lparr>mutex = Some 0, conns = Some [1::nat \<mapsto> True]\<rparr>, sworld = ((\<lambda>_. conn_new, \<lambda>_. chan_make 1) :: nat world),
       sthreads = [\<lparr>tpc = InCloseAll [1], tcalls = [CCloseAll]\<rparr>]\<rparr>)
   \<and> tcalls (sthreads \<lparr>sreg = \<lparr>mutex = None, conns = Some [1::nat \<mapsto> True]\<rparr>, sworld = ((\<lambda>_. conn_new, \<lambda>_. chan_make 1) :: nat world),
       sthreads = [\<lparr>tpc = Idle, tcalls = [CCloseAll]\<rparr>]\<rparr> ! 0) \<noteq> []
   \<and> hd (tcalls (sthreads \<lparr>sreg = \<lparr>mutex = None, conns = Some [1::nat \<mapsto> True]\<rparr>, sworld = ((\<lambda>_. conn_new, \<lambda>_. chan_make 1) :: nat world),
       sthreads = [\<lparr>tpc = Idle, tcalls = [CCloseAll]\<rparr>]\<rparr> ! 0)) = CCloseAll
   \<and> csteps world_Close conn_env
      \<lparr>sreg = \<lparr>mutex = Some 0, conns = Some [1::nat \<mapsto> True]\<rparr>, sworld = ((\<lambda>_. conn_new, \<lambda>_. chan_make 1) :: nat world),
       sthreads = [\<lparr>tpc = InCloseAll [1], tcalls = [CCloseAll]\<rparr>]\<rparr>
      [LEnv, LClose 0 1, LLin 0 CCloseAll, LUnlock 0]
      \<lparr>sreg = \<lparr>mutex = None, conns = Some (Map.empty :: nat \<rightharpoonup> bool)\<rparr>,
       sworld = (((\<lambda>_. conn_new)(1 := conn_new\<lparr>closedSignal := Some 0, isClosed := True\<rparr>),
                 (\<lambda>_. chan_make 1)(0 := (chan_make 1)\<lparr>chan_buf := 1\<rparr>)) :: nat world),
       sthreads = [\<lparr>tpc = Idle, tcalls = []\<rparr>]\<rparr>
   \<and> LLin 0 CCloseAll \<in> set [LEnv, LClose 0 (1::nat), LLin 0 CCloseAll, LUnlock 0]
   \<and> members (sreg \<lparr>sreg = \<lparr>mutex = None, conns = Some [1::nat \<mapsto> True]\<rparr>, sworld = ((\<lambda>_. conn_new, \<lambda>_. chan_make 1) :: nat world),
       sthreads = [\<lparr>tpc = Idle, tcalls = [CCloseAll]\<rparr>]\<rparr>)
     \<subseteq> {c. isClosed (fst (sworld \<lparr>sreg = \<lparr>mutex = None, conns = Some (Map.empty :: nat \<rightharpoonup> bool)\<rparr>,
       sworld = (((\<lambda>_. conn_new)(1 := conn_new\<lparr>closedSignal := Some 0, isClosed := True\<rparr>),
                 (\<lambda>_. chan_make 1)(0 := (chan_make 1)\<lparr>chan_buf := 1\<rparr>)) :: nat world),
       sthreads = [\<lparr>tpc = Idle, tcalls = []\<rparr>]\<rparr>) c)}"
proof -
  let ?W0 = "(\<lambda>_. conn_new, \<lambda>_. chan_make 1) :: nat world"
  let ?W1 = "((\<lambda>_. conn_new)(1 := conn_new\<lparr>closedSignal := Some 0\<rparr>), \<lambda>_. chan_make 1) :: nat world"
  let ?S1 = "\<lparr>sreg = \<lparr>mutex = Some 0, conns = Some [1::nat \<mapsto> True]\<rparr>, sworld = ?W0,
       sthreads = [\<lparr>tpc = InCloseAll [1], tcalls = [CCloseAll]\<rparr>]\<rparr>"
  have h1: "csteps world_Close conn_env (sys_init ?W0 [[CAdd (1::nat), CCloseAll]])
      [LLock 0, LLin 0 (CAdd 1), LUnlock 0]
      \<lparr>sreg = \<lparr>mutex = None, conns = Some [1::nat \<mapsto> True]\<rparr>, sworld = ?W0,
       sthreads = [\<lparr>tpc = Idle, tcalls = [CCloseAll]\<rparr>]\<rparr>"
    by (rule run_sched_csteps [where sch = "[(0, []), (0, []), (0, [])]"]) (simp add: sched_eval)
  have h2: "sched_step world_Close 0 [1]
      \<lparr>sreg = \<lparr>mutex = None, conns = Some [1::nat \<mapsto> True]\<rparr>, sworld = ?W0,
       sthreads = [\<lparr>tpc = Idle, tcalls = [CCloseAll]\<rparr>]\<rparr> = Some (LLock 0, ?S1)"
    by (simp add: sched_eval)
  have h3: "tcalls (sthreads \<lparr>sreg = \<lparr>mutex = None, conns = Some [1::nat \<mapsto> True]\<rparr>, sworld = ?W0,
       sthreads = [\<lparr>tpc = Idle, tcalls = [CCloseAll]\<rparr>]\<rparr> ! 0) \<noteq> []" by simp
  have h4: "hd (tcalls (sthreads \<lparr>sreg = \<lparr>mutex = None, conns = Some [1::nat \<mapsto> True]\<rparr>, sworld = ?W0,
       sthreads = [\<lparr>tpc = Idle, tcalls = [CCloseAll]\<rparr>]\<rparr> ! 0)) = CCloseAll" by simp
  have env: "conn_env ?W0 ?W1"
    by (rule conn_env.use [where e = "Call (SetClosedSignal (Some 0))"]) (simp add: conn_new_def)
  have rest: "csteps world_Close conn_env (?S1\<lparr>sworld := ?W1\<rparr>)
      [LClose 0 1, LLin 0 CCloseAll, LUnlock 0]
      \<lparr>sreg = \<lparr>mutex = None, conns = Some Map.empty\<rparr>,
       sworld = ((\<lambda>_. conn_new)(1 := conn_new\<lparr>closedSignal := Some 0, isClosed := True\<rparr>),
                 (\<lambda>_. chan_make 1)(0 := (chan_make 1)\<lparr>chan_buf := 1\<rparr>)),
       sthreads = [\<lparr>tpc = Idle, tcalls = []\<rparr>]\<rparr>"
    by (rule run_sched_csteps [where sch = "[(0, []), (0, []), (0, [])]"])
      (simp add: sched_eval world_Close_def conn_Close_def conn_signal_def chan_trysend_def conn_new_def chan_make_def)
  have h5: "csteps world_Close conn_env ?S1
      [LEnv, LClose 0 1, LLin 0 CCloseAll, LUnlock 0]
      \<lparr>sreg = \<lparr>mutex = None, conns = Some Map.empty\<rparr>,
       sworld = ((\<lambda>_. conn_new)(1 := conn_new\<lparr>closedSignal := Some 0, isClosed := True\<rparr>),
                 (\<lambda>_. chan_make 1)(0 := (chan_make 1)\<lparr>chan_buf := 1\<rparr>)),
       sthreads = [\<lparr>tpc = Idle, tcalls = []\<rparr>]\<rparr>"
  proof -
    have e2: "conn_env (sworld ?S1) ?W1" using env by simp
    have "cstep world_Close conn_env ?S1 LEnv (?S1\<lparr>sworld := ?W1\<rparr>)"
      by (rule cstep.world [where env = conn_env and close = world_Close, OF e2])
    then show ?thesis by (rule csteps.step [OF _ rest])
  qed
  have h6: "LLin 0 CCloseAll \<in> set [LEnv, LClose 0 (1::nat), LLin 0 CCloseAll, LUnlock 0]" by simp
  show ?thesis
    by (rule conjI [OF h1 conjI [OF h2 conjI [OF h3 conjI [OF h4 conjI [OF h5 conjI [OF h6
        CloseAll_concurrent_closes [OF h1 h2 h3 h4 h5 h6]]]]]]])
qed

end
